theory Spec2Isabelle
  imports Complex_Main
begin

section \<open>The model cache of \<open>invokeai/backend/model_manager/cache.py\<close>\<close>

text \<open>
  The cache keeps loaded models in RAM, moves them between a storage device and an
  execution device, and clears least recently used models when a size budget is
  exceeded. The embedding follows the Python source function by function.

  \<^item> Python objects that are shared and mutated (\<open>_CacheRecord\<close> and the model it holds)
    live in an explicit store \<open>objs\<close>, addressed by references (natural numbers). The
    dictionary \<open>_cached_models\<close> maps keys to references, a \<open>ModelLocker\<close> holds the
    reference of its cache entry.
  \<^item> A Python dictionary keeps insertion order, and \<open>_offload_unlocked_models\<close> sorts
    its items with a stable sort, so \<open>_cached_models\<close> is an association list.
  \<^item> Every function that can raise returns a pair: the outcome (\<open>Inl\<close> the exception,
    \<open>Inr\<close> the returned value) and the state the exception or the return leaves behind.
  \<^item> Python floats (\<open>max_cache_size\<close>, \<open>max_vram_cache_size\<close>) are the rational numbers
    they denote; integers are unbounded.
  \<^item> The collaborators outside the file (the file system, the model provider, the
    reference counter of the interpreter, the \<open>to\<close> method of a model and the CUDA
    allocator) are the fields of a \<open>runtime\<close> record that every function takes.
  \<^item> Logging, \<open>gc.collect()\<close>, \<open>torch.cuda.empty_cache()\<close> and the clearing of stack
    frames in \<open>_make_cache_room\<close> do not touch the data of the cache and are left out.
  \<^item> The memo \<open>model_infos\<close> of provider descriptors is left out as well: the provider
    is a function of the path and the submodel type.
\<close>

subsection \<open>Data\<close>

datatype error = AssertionError | KeyError | AttributeError | Exception string

text \<open>\<open>GIG\<close>: the actual size of a gig.\<close>

definition GIG :: int where
  "GIG = 1073741824"

text \<open>
  What the cache asks of a model object: whether it has a method \<open>to\<close>
  (\<open>hasattr(model, "to")\<close>), and its attribute \<open>device\<close> (\<open>None\<close> when
  \<open>hasattr(model, "device")\<close> is false).
\<close>

record model_obj =
  has_to :: bool
  device :: "string option"

text \<open>Class \<open>_CacheRecord\<close>; \<open>size_bytes\<close> is the field \<open>size\<close>, \<open>locks\<close> the field \<open>_locks\<close>.\<close>

record cache_record =
  size_bytes :: int
  model :: model_obj
  locks :: int

text \<open>Class \<open>CacheStats\<close>.\<close>

record cache_stats =
  hits :: int
  misses :: int
  high_watermark :: int
  in_cache :: int
  cleared :: int
  cache_size :: rat
  loaded_model_sizes :: "string \<rightharpoonup> int"

text \<open>
  Class \<open>ModelCache\<close>, with the store of the objects it refers to (\<open>objs\<close>, \<open>next_ref\<close> the
  next unused reference), the value of \<open>torch.cuda.memory_allocated()\<close>
  (\<open>cuda_allocated\<close>) and the calls of \<open>model.to(device)\<close> issued so far, in order
  (\<open>to_calls\<close>: the reference of the cache entry whose model is moved, and the device).
\<close>

record model_cache =
  lazy_offloading :: bool
  max_cache_size :: rat
  max_vram_cache_size :: rat
  execution_device :: string
  storage_device :: string
  stats :: "cache_stats option"
  cached_models :: "(string \<times> nat) list"
  cache_stack :: "string list"
  objs :: "nat \<Rightarrow> cache_record"
  next_ref :: nat
  cuda_allocated :: int
  to_calls :: "(nat \<times> string) list"

text \<open>
  The collaborators: \<open>os.path.exists\<close>; \<open>model_info.get_size(submodel)\<close> and
  \<open>model_info.get_model(child_type=submodel, ...)\<close> of the model at a path;
  \<open>sys.getrefcount(cache_entry.model)\<close>; and \<open>model.to(device)\<close>, which either raises
  or moves the model, after which \<open>torch.cuda.memory_allocated()\<close> has the value
  returned (given the entry, the device and the value before the call).
\<close>

record runtime =
  path_exists :: "string \<Rightarrow> bool"
  get_size :: "string \<Rightarrow> string option \<Rightarrow> int"
  load_model :: "string \<Rightarrow> string option \<Rightarrow> error + model_obj"
  getrefcount :: "nat \<Rightarrow> int"
  to_device :: "nat \<Rightarrow> string \<Rightarrow> int \<Rightarrow> error + int"

text \<open>Class \<open>ModelLocker\<close>; its field \<open>model\<close> is the model of its cache entry.\<close>

record model_locker =
  gpu_load :: bool
  key :: string
  cache_entry :: nat
  size_needed :: int

subsection \<open>\<open>_CacheRecord\<close>\<close>

definition lock :: "cache_record \<Rightarrow> cache_record" where
  "lock r = r\<lparr>locks := locks r + 1\<rparr>"

text \<open>\<open>unlock\<close> decrements first and asserts afterwards.\<close>

definition unlock :: "cache_record \<Rightarrow> (error + unit) \<times> cache_record" where
  "unlock r =
     (let r' = r\<lparr>locks := locks r - 1\<rparr>
      in if locks r' \<ge> 0 then (Inr (), r') else (Inl AssertionError, r'))"

definition locked :: "cache_record \<Rightarrow> bool" where
  "locked r = (locks r > 0)"

definition loaded :: "model_cache \<Rightarrow> cache_record \<Rightarrow> bool" where
  "loaded s r =
     (case device (model r) of
        Some d \<Rightarrow> d \<noteq> storage_device s
      | None \<Rightarrow> False)"

text \<open>The two methods applied to the record behind a reference.\<close>

definition entry_lock :: "nat \<Rightarrow> model_cache \<Rightarrow> model_cache" where
  "entry_lock a s = s\<lparr>objs := (objs s)(a := lock (objs s a))\<rparr>"

definition entry_unlock :: "nat \<Rightarrow> model_cache \<Rightarrow> (error + unit) \<times> model_cache" where
  "entry_unlock a s =
     (case unlock (objs s a) of
        (res, r') \<Rightarrow> (res, s\<lparr>objs := (objs s)(a := r')\<rparr>))"

subsection \<open>Keys, dictionaries and lists\<close>

text \<open>
  \<open>get_key\<close>: the path, followed by a colon and the submodel type when one is given. The
  submodel type is an enumeration over strings, so the test \<open>if submodel_type\<close> also
  fails on an empty value.
\<close>

definition get_key :: "string \<Rightarrow> string option \<Rightarrow> string" where
  "get_key model_path submodel_type =
     (case submodel_type of
        None \<Rightarrow> model_path
      | Some t \<Rightarrow> if t = [] then model_path else model_path @ '':'' @ t)"

text \<open>Python's \<open>sub in text\<close> on strings.\<close>

fun starts_with :: "string \<Rightarrow> string \<Rightarrow> bool" where
  "starts_with [] text = True"
| "starts_with (c # cs) [] = False"
| "starts_with (c # cs) (d # ds) = (c = d \<and> starts_with cs ds)"

fun str_contains :: "string \<Rightarrow> string \<Rightarrow> bool" where
  "str_contains sub [] = (sub = [])"
| "str_contains sub (d # ds) = (starts_with sub (d # ds) \<or> str_contains sub ds)"

text \<open>\<open>del xs[pos]\<close> and \<open>del d[k]\<close>; the callers check the index and the key first.\<close>

definition del_at :: "nat \<Rightarrow> 'a list \<Rightarrow> 'a list" where
  "del_at pos xs = take pos xs @ drop (Suc pos) xs"

definition dict_del :: "string \<Rightarrow> (string \<times> 'v) list \<Rightarrow> (string \<times> 'v) list" where
  "dict_del k d = filter (\<lambda>kv. fst kv \<noteq> k) d"

text \<open>\<open>_cache_size\<close>: the sum of the sizes of the cached records.\<close>

definition cache_size_bytes :: "model_cache \<Rightarrow> int" where
  "cache_size_bytes s = sum_list (map (\<lambda>kv. size_bytes (objs s (snd kv))) (cached_models s))"

definition stats_cleared :: "cache_stats option \<Rightarrow> cache_stats option" where
  "stats_cleared st = map_option (\<lambda>c. c\<lparr>cleared := cleared c + 1\<rparr>) st"

subsection \<open>\<open>_make_cache_room\<close>\<close>

text \<open>
  The test that decides whether the entry at \<open>pos\<close> is cleared, as Python parses it:
  a conditional expression binds weaker than \<open>and\<close>, so
  \<open>not cache_entry.locked and refs <= 3 if "onnx" in model_key else 2\<close> is
  \<open>(not cache_entry.locked and refs <= 3) if "onnx" in model_key else 2\<close>, and the
  integer \<open>2\<close> is true.
\<close>

definition clear_test :: "string \<Rightarrow> cache_record \<Rightarrow> int \<Rightarrow> bool" where
  "clear_test model_key entry refs =
     (if str_contains ''onnx'' model_key then \<not> locked entry \<and> refs \<le> 3
      else (2::int) \<noteq> 0)"

text \<open>
  The \<open>while\<close> loop; \<open>_cached_models[model_key]\<close> raises \<open>KeyError\<close> on a key of the
  stack that the dictionary does not have.
\<close>

function make_room_loop ::
  "runtime \<Rightarrow> int \<Rightarrow> rat \<Rightarrow> int \<Rightarrow> nat \<Rightarrow> model_cache \<Rightarrow> (error + unit) \<times> model_cache" where
  "make_room_loop rt bytes_needed maximum_size current_size pos s =
     (if of_int (current_size + bytes_needed) > maximum_size \<and> pos < length (cache_stack s)
      then
        (let model_key = cache_stack s ! pos in
         case map_of (cached_models s) model_key of
           None \<Rightarrow> (Inl KeyError, s)
         | Some a \<Rightarrow>
             if clear_test model_key (objs s a) (getrefcount rt a)
             then make_room_loop rt bytes_needed maximum_size
                    (current_size - size_bytes (objs s a)) pos
                    (s\<lparr>stats := stats_cleared (stats s),
                       cache_stack := del_at pos (cache_stack s),
                       cached_models := dict_del model_key (cached_models s)\<rparr>)
             else make_room_loop rt bytes_needed maximum_size current_size (pos + 1) s)
      else (Inr (), s))"
  by pat_completeness auto
termination
  by (relation "measure (\<lambda>(rt, bytes_needed, maximum_size, current_size, pos, s).
        length (cache_stack s) - pos)") (auto simp: del_at_def)

declare make_room_loop.simps [simp del]

definition make_cache_room :: "runtime \<Rightarrow> int \<Rightarrow> model_cache \<Rightarrow> (error + unit) \<times> model_cache" where
  "make_cache_room rt model_size s =
     (let bytes_needed = model_size;
          maximum_size = max_cache_size s * of_int GIG;
          current_size = cache_size_bytes s
      in make_room_loop rt bytes_needed maximum_size current_size 0 s)"

subsection \<open>Moving a model\<close>

text \<open>
  \<open>model.to(device)\<close> on the model of the entry \<open>a\<close>: the call is recorded; it raises, or
  the model reports the new device and the allocator its new value.
\<close>

definition model_to :: "runtime \<Rightarrow> nat \<Rightarrow> string \<Rightarrow> model_cache \<Rightarrow> (error + unit) \<times> model_cache" where
  "model_to rt a d s =
     (let s1 = s\<lparr>to_calls := to_calls s @ [(a, d)]\<rparr> in
      case to_device rt a d (cuda_allocated s) of
        Inl e \<Rightarrow> (Inl e, s1)
      | Inr m \<Rightarrow>
          (Inr (),
           s1\<lparr>objs := (objs s)(a := (objs s a)\<lparr>model := (model (objs s a))\<lparr>device := Some d\<rparr>\<rparr>),
              cuda_allocated := m\<rparr>))"

subsection \<open>\<open>_offload_unlocked_models\<close>\<close>

text \<open>
  The \<open>for\<close> loop over the sorted items; \<open>mem.vram_used\<close> is the difference of
  \<open>torch.cuda.memory_allocated()\<close> after and before the move.
\<close>

fun offload_loop ::
  "runtime \<Rightarrow> rat \<Rightarrow> (string \<times> nat) list \<Rightarrow> int \<Rightarrow> model_cache \<Rightarrow> (error + unit) \<times> model_cache" where
  "offload_loop rt reserved [] vram_in_use s = (Inr (), s)"
| "offload_loop rt reserved ((model_key, a) # rest) vram_in_use s =
     (if of_int vram_in_use \<le> reserved then (Inr (), s)
      else if \<not> locked (objs s a) \<and> loaded s (objs s a) then
        (case model_to rt a (storage_device s) s of
           (Inl e, s') \<Rightarrow> (Inl e, s')
         | (Inr u, s') \<Rightarrow>
             offload_loop rt reserved rest
               (vram_in_use + (cuda_allocated s' - cuda_allocated s)) s')
      else offload_loop rt reserved rest vram_in_use s)"

definition sorted_items :: "model_cache \<Rightarrow> (string \<times> nat) list" where
  "sorted_items s = sort_key (\<lambda>kv. size_bytes (objs s (snd kv))) (cached_models s)"

definition offload_unlocked_models ::
  "runtime \<Rightarrow> int \<Rightarrow> model_cache \<Rightarrow> (error + unit) \<times> model_cache" where
  "offload_unlocked_models rt size_needed' s =
     (let reserved = max_vram_cache_size s * of_int GIG;
          vram_in_use = cuda_allocated s
      in offload_loop rt reserved (sorted_items s) vram_in_use s)"

subsection \<open>\<open>ModelLocker\<close>\<close>

text \<open>The body of the \<open>try\<close> block of \<open>__enter__\<close>.\<close>

definition enter_try :: "runtime \<Rightarrow> model_locker \<Rightarrow> model_cache \<Rightarrow> (error + unit) \<times> model_cache" where
  "enter_try rt lk s =
     (case (if lazy_offloading s then offload_unlocked_models rt (size_needed lk) s
            else (Inr (), s)) of
        (Inl e, s1) \<Rightarrow> (Inl e, s1)
      | (Inr u, s1) \<Rightarrow>
          (case device (model (objs s1 (cache_entry lk))) of
             None \<Rightarrow> (Inl AttributeError, s1)
           | Some d \<Rightarrow>
               if d \<noteq> execution_device s1
               then model_to rt (cache_entry lk) (execution_device s1) s1
               else (Inr (), s1)))"

text \<open>\<open>__enter__\<close> returns the model, here the reference of the entry that holds it.\<close>

definition locker_enter :: "runtime \<Rightarrow> model_locker \<Rightarrow> model_cache \<Rightarrow> (error + nat) \<times> model_cache" where
  "locker_enter rt lk s =
     (if \<not> has_to (model (objs s (cache_entry lk))) then (Inr (cache_entry lk), s)
      else if gpu_load lk then
        (case enter_try rt lk (entry_lock (cache_entry lk) s) of
           (Inr u, s2) \<Rightarrow> (Inr (cache_entry lk), s2)
         | (Inl e, s2) \<Rightarrow>
             (case entry_unlock (cache_entry lk) s2 of
                (Inl e', s3) \<Rightarrow> (Inl e', s3)
              | (Inr u, s3) \<Rightarrow> (Inl e, s3)))
      else if loaded s (objs s (cache_entry lk)) \<and> \<not> locked (objs s (cache_entry lk)) then
        (case model_to rt (cache_entry lk) (storage_device s) s of
           (Inl e, s1) \<Rightarrow> (Inl e, s1)
         | (Inr u, s1) \<Rightarrow> (Inr (cache_entry lk), s1))
      else (Inr (cache_entry lk), s))"

definition locker_exit :: "runtime \<Rightarrow> model_locker \<Rightarrow> model_cache \<Rightarrow> (error + unit) \<times> model_cache" where
  "locker_exit rt lk s =
     (if \<not> has_to (model (objs s (cache_entry lk))) then (Inr (), s)
      else
        (case entry_unlock (cache_entry lk) s of
           (Inl e, s1) \<Rightarrow> (Inl e, s1)
         | (Inr u, s1) \<Rightarrow>
             if \<not> lazy_offloading s1 then offload_unlocked_models rt 0 s1
             else (Inr (), s1)))"

subsection \<open>\<open>ModelCache\<close>\<close>

text \<open>The constructor; lazy offloading is allowed only when the VRAM cache is enabled.\<close>

definition ModelCache_init :: "rat \<Rightarrow> rat \<Rightarrow> string \<Rightarrow> string \<Rightarrow> bool \<Rightarrow> model_cache" where
  "ModelCache_init max_cache_size' max_vram_cache_size' execution_device' storage_device'
       lazy_offloading' =
     \<lparr>lazy_offloading = (lazy_offloading' \<and> max_vram_cache_size' > 0),
      max_cache_size = max_cache_size',
      max_vram_cache_size = max_vram_cache_size',
      execution_device = execution_device',
      storage_device = storage_device',
      stats = None,
      cached_models = [],
      cache_stack = [],
      objs = (\<lambda>a. \<lparr>size_bytes = 0, model = \<lparr>has_to = False, device = None\<rparr>, locks = 0\<rparr>),
      next_ref = 0,
      cuda_allocated = 0,
      to_calls = []\<rparr>"

definition uncache_model :: "string \<Rightarrow> model_cache \<Rightarrow> model_cache" where
  "uncache_model cache_id s =
     s\<lparr>cache_stack := remove1 cache_id (cache_stack s),
       cached_models := dict_del cache_id (cached_models s)\<rparr>"

text \<open>The statistics kept at the end of \<open>get_model\<close>, when \<open>stats\<close> is set.\<close>

definition stats_access :: "runtime \<Rightarrow> string \<Rightarrow> string option \<Rightarrow> string \<Rightarrow> model_cache \<Rightarrow> model_cache" where
  "stats_access rt model_path submodel k s =
     s\<lparr>stats := map_option (\<lambda>c.
          c\<lparr>cache_size := max_cache_size s * of_int GIG,
            high_watermark := max (high_watermark c) (cache_size_bytes s),
            in_cache := int (length (cached_models s)),
            loaded_model_sizes := (loaded_model_sizes c)(k \<mapsto>
              max (case loaded_model_sizes c k of None \<Rightarrow> 0 | Some n \<Rightarrow> n)
                  (get_size rt model_path submodel))\<rparr>) (stats s)\<rparr>"

text \<open>
  \<open>get_model\<close>. On a miss the room is made before the provider loads the model; the new
  record and its model take the next unused reference.
\<close>

definition get_model ::
  "runtime \<Rightarrow> string \<Rightarrow> string option \<Rightarrow> bool \<Rightarrow> model_cache \<Rightarrow> (error + model_locker) \<times> model_cache" where
  "get_model rt model_path submodel gpu_load' s =
     (if \<not> path_exists rt model_path then (Inl (Exception (''Model not found: '' @ model_path)), s)
      else
        (let k = get_key model_path submodel;
             finish = (\<lambda>a s1.
               (let s2 = stats_access rt model_path submodel k s1;
                    s3 = s2\<lparr>cache_stack := remove1 k (cache_stack s2) @ [k]\<rparr>
                in case map_of (cached_models s3) k of
                     None \<Rightarrow> (Inl KeyError, s3)
                   | Some a' \<Rightarrow>
                       (Inr \<lparr>gpu_load = gpu_load', key = k, cache_entry = a',
                             size_needed = size_bytes (objs s3 a)\<rparr>, s3)))
         in case map_of (cached_models s) k of
              None \<Rightarrow>
                (let s1 = s\<lparr>stats := map_option (\<lambda>c. c\<lparr>misses := misses c + 1\<rparr>) (stats s)\<rparr> in
                 case make_cache_room rt (get_size rt model_path submodel) s1 of
                   (Inl e, s2) \<Rightarrow> (Inl e, s2)
                 | (Inr u, s2) \<Rightarrow>
                     (case load_model rt model_path submodel of
                        Inl e \<Rightarrow> (Inl e, s2)
                      | Inr m \<Rightarrow>
                          (let mem_used = get_size rt model_path submodel;
                               a = next_ref s2
                           in finish a
                                (s2\<lparr>objs := (objs s2)(a :=
                                       \<lparr>size_bytes = mem_used, model = m, locks = 0\<rparr>),
                                    next_ref := Suc a,
                                    cached_models := cached_models s2 @ [(k, a)]\<rparr>))))
            | Some a \<Rightarrow>
                finish a (s\<lparr>stats := map_option (\<lambda>c. c\<lparr>hits := hits c + 1\<rparr>) (stats s)\<rparr>)))"

subsection \<open>Invariants and specification-level notions\<close>

text \<open>
  The invariant of the registry: the keys of \<open>_cached_models\<close> are unique (it is a
  dictionary), \<open>_cache_stack\<close> has no duplicates, and both hold the same keys.
\<close>

definition cache_inv :: "model_cache \<Rightarrow> bool" where
  "cache_inv s =
     (distinct (map fst (cached_models s)) \<and> distinct (cache_stack s) \<and>
      set (cache_stack s) = set (map fst (cached_models s)))"

text \<open>Whether the scan of \<open>_make_cache_room\<close> clears the entry of a key when it reaches it.\<close>

definition clearable :: "runtime \<Rightarrow> model_cache \<Rightarrow> string \<Rightarrow> bool" where
  "clearable rt s k =
     (case map_of (cached_models s) k of
        None \<Rightarrow> False
      | Some a \<Rightarrow> clear_test k (objs s a) (getrefcount rt a))"

text \<open>What no operation of a locker or of the offloading changes.\<close>

definition same_registry :: "model_cache \<Rightarrow> model_cache \<Rightarrow> bool" where
  "same_registry s s' =
     (cached_models s' = cached_models s \<and> cache_stack s' = cache_stack s \<and>
      lazy_offloading s' = lazy_offloading s \<and> max_cache_size s' = max_cache_size s \<and>
      max_vram_cache_size s' = max_vram_cache_size s \<and>
      execution_device s' = execution_device s \<and> storage_device s' = storage_device s \<and>
      stats s' = stats s \<and> next_ref s' = next_ref s)"

text \<open>
  The offloading as the specification words it: the candidates are the unlocked entries
  resident in the execution tier, in ascending order of size; while the usage exceeds the
  reserve the next candidate is moved to the storage tier, until the usage is at or below
  the reserve or no candidate remains.
\<close>

definition offload_candidate :: "model_cache \<Rightarrow> nat \<Rightarrow> bool" where
  "offload_candidate s a = (\<not> locked (objs s a) \<and> loaded s (objs s a))"

definition offload_candidates :: "model_cache \<Rightarrow> nat list" where
  "offload_candidates s =
     sort_key (\<lambda>a. size_bytes (objs s a))
       (filter (offload_candidate s) (map snd (cached_models s)))"

fun offload_spec :: "runtime \<Rightarrow> rat \<Rightarrow> nat list \<Rightarrow> model_cache \<Rightarrow> (error + unit) \<times> model_cache" where
  "offload_spec rt reserve [] s = (Inr (), s)"
| "offload_spec rt reserve (a # candidates) s =
     (if of_int (cuda_allocated s) \<le> reserve then (Inr (), s)
      else
        (case model_to rt a (storage_device s) s of
           (Inl e, s') \<Rightarrow> (Inl e, s')
         | (Inr u, s') \<Rightarrow> offload_spec rt reserve candidates s'))"

text \<open>
  Every key of the dictionary has a record of its own, allocated before \<open>next_ref\<close>: what
  the allocation of a new record on every miss maintains.
\<close>

definition refs_inv :: "model_cache \<Rightarrow> bool" where
  "refs_inv s =
     (distinct (map snd (cached_models s)) \<and>
      list_all (\<lambda>kv. snd kv < next_ref s) (cached_models s))"

subsection \<open>Concrete caches\<close>

text \<open>
  A runtime in which every path exists, every model takes 4 GB, has a method \<open>to\<close> and is
  loaded on the CPU, the reference count of a model is 2, and a move to \<open>cuda\<close> allocates
  4 GB that a move away frees.
\<close>

definition ex_rt :: runtime where
  "ex_rt =
     \<lparr>path_exists = (\<lambda>p. True),
      get_size = (\<lambda>p sub. 4 * GIG),
      load_model = (\<lambda>p sub. Inr \<lparr>has_to = True, device = Some ''cpu''\<rparr>),
      getrefcount = (\<lambda>a. 2),
      to_device = (\<lambda>a d m. Inr (if d = ''cuda'' then m + 4 * GIG else m - 4 * GIG))\<rparr>"

text \<open>A cache of 4 GB with a VRAM reserve of 2 GB and lazy offloading, as constructed.\<close>

definition ex_cache :: model_cache where
  "ex_cache = ModelCache_init 4 2 ''cuda'' ''cpu'' True"

text \<open>The same runtime with a provider whose models have neither \<open>to\<close> nor \<open>device\<close>.\<close>

definition ex_rt_plain :: runtime where
  "ex_rt_plain = ex_rt\<lparr>load_model := (\<lambda>p sub. Inr \<lparr>has_to = False, device = None\<rparr>)\<rparr>"

text \<open>The same runtime with a \<open>to\<close> method that always raises.\<close>

definition ex_rt_oom :: runtime where
  "ex_rt_oom = ex_rt\<lparr>to_device := (\<lambda>a d m. Inl (Exception ''CUDA out of memory''))\<rparr>"

text \<open>The locker that \<open>get_model\<close> returns for the key \<open>k\<close> cached at the reference \<open>a\<close>.\<close>

definition ex_lk :: "string \<Rightarrow> nat \<Rightarrow> bool \<Rightarrow> model_locker" where
  "ex_lk k a g = \<lparr>gpu_load = g, key = k, cache_entry = a, size_needed = 4 * GIG\<rparr>"

text \<open>
  A cache of 16 GB with a VRAM reserve of 6 GB and lazy offloading: \<open>/m/g\<close> is requested
  (\<open>ex_g1\<close>), used on the GPU and released (\<open>ex_g2\<close>), then \<open>/m/h\<close> is requested and its
  guard entered (\<open>ex_gh\<close>). Both models are then on the GPU, \<open>/m/h\<close> is locked.
\<close>

definition ex_g1 :: model_cache where
  "ex_g1 = snd (get_model ex_rt ''/m/g'' None True (ModelCache_init 16 6 ''cuda'' ''cpu'' True))"

definition ex_g2 :: model_cache where
  "ex_g2 = snd (locker_exit ex_rt (ex_lk ''/m/g'' 0 True)
             (snd (locker_enter ex_rt (ex_lk ''/m/g'' 0 True) ex_g1)))"

definition ex_gh :: model_cache where
  "ex_gh = snd (locker_enter ex_rt (ex_lk ''/m/h'' 1 True)
             (snd (get_model ex_rt ''/m/h'' None True ex_g2)))"

text \<open>
  The cache of 4 GB after \<open>/m/unet.onnx\<close> was requested and its guard entered: the entry
  is locked and fills the cache.
\<close>

definition ex_onnx :: model_cache where
  "ex_onnx = snd (locker_enter ex_rt (ex_lk ''/m/unet.onnx'' 0 True)
               (snd (get_model ex_rt ''/m/unet.onnx'' None True ex_cache)))"

text \<open>
  A runtime whose provider fails to load \<open>/m/b\<close>, and the cache of 4 GB after \<open>/m/a\<close>
  was requested from it: \<open>/m/a\<close> is cached, unlocked, and fills the cache.
\<close>

definition ex_rt_noload :: runtime where
  "ex_rt_noload =
     ex_rt\<lparr>load_model := (\<lambda>p sub. if p = ''/m/b'' then Inl (Exception ''corrupt file'')
                                 else Inr \<lparr>has_to = True, device = Some ''cpu''\<rparr>)\<rparr>"

definition ex_a :: model_cache where
  "ex_a = snd (get_model ex_rt_noload ''/m/a'' None True ex_cache)"

text \<open>
  A runtime in which every model has 6 references, and the cache of 4 GB after
  \<open>/m/unet.onnx\<close> was requested from it: the entry is unlocked and fills the cache.
\<close>

definition ex_rt_busy :: runtime where
  "ex_rt_busy = ex_rt\<lparr>getrefcount := (\<lambda>a. 6)\<rparr>"

definition ex_busy :: model_cache where
  "ex_busy = snd (get_model ex_rt_busy ''/m/unet.onnx'' None True ex_cache)"

text \<open>
  The same cache with the statistics switched on before \<open>/m/a\<close> was requested.
\<close>

definition ex_a_counted :: model_cache where
  "ex_a_counted =
     snd (get_model ex_rt_noload ''/m/a'' None True
       (ex_cache\<lparr>stats := Some \<lparr>hits = 0, misses = 0, high_watermark = 0, in_cache = 0,
                                cleared = 0, cache_size = 0,
                                loaded_model_sizes = Map.empty\<rparr>\<rparr>))"

text \<open>
  The cache of 4 GB after \<open>/m/a\<close> was requested without \<open>gpu_load\<close> and its guard was left:
  \<open>__exit__\<close> has called \<open>unlock\<close> on a lock count of 0.
\<close>

definition ex_under :: model_cache where
  "ex_under = snd (locker_exit ex_rt (ex_lk ''/m/a'' 0 False)
                (snd (get_model ex_rt ''/m/a'' None False ex_cache)))"

section \<open>Verification\<close>

subsection \<open>Evaluation of the concrete caches\<close>

lemmas ex_defs =
  ex_rt_def ex_cache_def ex_rt_plain_def ModelCache_init_def get_model_def make_cache_room_def
  make_room_loop.simps get_key_def stats_access_def cache_size_bytes_def GIG_def Let_def
  clear_test_def del_at_def dict_del_def stats_cleared_def locked_def loaded_def
  locker_enter_def locker_exit_def enter_try_def entry_lock_def entry_unlock_def lock_def
  unlock_def offload_unlocked_models_def sorted_items_def model_to_def uncache_model_def
  ex_rt_oom_def ex_lk_def ex_g1_def ex_g2_def ex_gh_def ex_onnx_def ex_rt_noload_def ex_a_def
  ex_rt_busy_def ex_busy_def ex_a_counted_def ex_under_def

subsection \<open>Lock counting\<close>

lemma lock_unlock_pairs: "0 \<le> locks r \<Longrightarrow> unlock (lock r) = (Inr (), r)"
  by (simp add: unlock_def lock_def)

text \<open>
  C3 (the code at a failing input). On a record whose lock count is 0, \<open>lock\<close> followed
  by \<open>unlock\<close> gives the record back, and \<open>unlock\<close> alone raises the assertion error: so
  far the claim. But \<open>unlock\<close> decrements before it asserts, so the record that the
  failing call leaves behind has the count -1, against the assertion \<open>_locks >= 0\<close> of
  the code itself. The next \<open>lock\<close> of that record brings the count to 0 only: the record
  is in use and does not count as locked. So it is in \<open>ex_under\<close>, the cache after a
  guard without \<open>gpu_load\<close> was left: a guard with \<open>gpu_load\<close> entered there holds an
  entry that is not locked.
\<close>

theorem unlock_underflow_stores_negative:
  "unlock (lock \<lparr>size_bytes = 4, model = \<lparr>has_to = True, device = Some ''cpu''\<rparr>, locks = 0\<rparr>)
     = (Inr (), \<lparr>size_bytes = 4, model = \<lparr>has_to = True, device = Some ''cpu''\<rparr>, locks = 0\<rparr>) \<and>
   unlock \<lparr>size_bytes = 4, model = \<lparr>has_to = True, device = Some ''cpu''\<rparr>, locks = 0\<rparr>
     = (Inl AssertionError,
        \<lparr>size_bytes = 4, model = \<lparr>has_to = True, device = Some ''cpu''\<rparr>, locks = - 1\<rparr>) \<and>
   locks (snd (unlock \<lparr>size_bytes = 4, model = \<lparr>has_to = True, device = Some ''cpu''\<rparr>,
                       locks = 0\<rparr>)) < 0 \<and>
   locks (lock (snd (unlock \<lparr>size_bytes = 4, model = \<lparr>has_to = True, device = Some ''cpu''\<rparr>,
                             locks = 0\<rparr>))) = 0 \<and>
   \<not> locked (lock (snd (unlock \<lparr>size_bytes = 4, model = \<lparr>has_to = True, device = Some ''cpu''\<rparr>,
                                locks = 0\<rparr>))) \<and>
   locks (objs ex_under 0) = - 1 \<and>
   fst (locker_enter ex_rt (ex_lk ''/m/a'' 0 True) ex_under) = Inr 0 \<and>
   \<not> locked (objs (snd (locker_enter ex_rt (ex_lk ''/m/a'' 0 True) ex_under)) 0)"
  by (simp add: ex_defs)

subsection \<open>Models without a method \<open>to\<close>\<close>

text \<open>
  C10. When the model of the locker's entry has no method \<open>to\<close>, \<open>__enter__\<close> returns the
  model and leaves the whole state as it is, whatever \<open>gpu_load\<close> says: no lock is taken
  and no model is moved. \<open>__exit__\<close>, in any later state in which the model still has no
  such method, returns without a change as well: no unlock and no offloading. So the lock
  count of the entry is the same before, during and after the guard.
\<close>

theorem locker_without_to:
  assumes "\<not> has_to (model (objs s (cache_entry lk)))"
    and "\<not> has_to (model (objs s' (cache_entry lk)))"
  shows "locker_enter rt lk s = (Inr (cache_entry lk), s) \<and> locker_exit rt lk s' = (Inr (), s')"
  using assms by (simp add: locker_enter_def locker_exit_def)

theorem locker_without_to_witness:
  "fst (get_model ex_rt_plain ''/m/vae'' None True ex_cache)
     = Inr \<lparr>gpu_load = True, key = ''/m/vae'', cache_entry = 0, size_needed = 4 * GIG\<rparr> \<and>
   \<not> has_to (model (objs (snd (get_model ex_rt_plain ''/m/vae'' None True ex_cache)) 0)) \<and>
   locker_enter ex_rt_plain
       \<lparr>gpu_load = True, key = ''/m/vae'', cache_entry = 0, size_needed = 4 * GIG\<rparr>
       (snd (get_model ex_rt_plain ''/m/vae'' None True ex_cache))
     = (Inr 0, snd (get_model ex_rt_plain ''/m/vae'' None True ex_cache)) \<and>
   locker_exit ex_rt_plain
       \<lparr>gpu_load = True, key = ''/m/vae'', cache_entry = 0, size_needed = 4 * GIG\<rparr>
       (snd (get_model ex_rt_plain ''/m/vae'' None True ex_cache))
     = (Inr (), snd (get_model ex_rt_plain ''/m/vae'' None True ex_cache))"
proof -
  let ?s = "snd (get_model ex_rt_plain ''/m/vae'' None True ex_cache)"
  let ?lk = "\<lparr>gpu_load = True, key = ''/m/vae'', cache_entry = 0, size_needed = 4 * GIG\<rparr>"
  have lk: "fst (get_model ex_rt_plain ''/m/vae'' None True ex_cache) = Inr ?lk"
    by (simp add: ex_defs)
  have h: "\<not> has_to (model (objs ?s (cache_entry ?lk)))"
    by (simp add: ex_defs)
  from locker_without_to[OF h h, of ex_rt_plain] lk h show ?thesis by simp
qed

subsection \<open>Dictionaries and lists\<close>

lemma map_of_dict_del: "map_of (dict_del k d) k' = (if k' = k then None else map_of d k')"
  by (induction d) (auto simp: dict_del_def)

lemma keys_dict_del: "set (map fst (dict_del k d)) = set (map fst d) - {k}"
  by (auto simp: dict_del_def)

lemma distinct_dict_del: "distinct (map fst d) \<Longrightarrow> distinct (map fst (dict_del k d))"
  by (simp add: dict_del_def distinct_map_filter)

lemma set_dict_del_subset: "set (dict_del k d) \<subseteq> set d"
  by (auto simp: dict_del_def)

lemma sum_dict_del:
  "distinct (map fst d) \<Longrightarrow> map_of d k = Some a \<Longrightarrow>
   sum_list (map (\<lambda>kv. f (snd kv)) (dict_del k d)) = sum_list (map (\<lambda>kv. f (snd kv)) d) - (f a :: int)"
proof (induction d)
  case Nil
  then show ?case by simp
next
  case (Cons x d)
  show ?case
  proof (cases "fst x = k")
    case True
    with Cons.prems have "k \<notin> set (map fst d)" by auto
    then have "dict_del k d = d" by (auto simp: dict_del_def filter_id_conv)
    with True Cons.prems show ?thesis by (cases x) (simp add: dict_del_def)
  next
    case False
    with Cons show ?thesis by (cases x) (simp add: dict_del_def)
  qed
qed

lemma length_del_at: "pos < length xs \<Longrightarrow> length (del_at pos xs) = length xs - 1"
  by (simp add: del_at_def)

lemma set_del_at:
  "distinct xs \<Longrightarrow> pos < length xs \<Longrightarrow> set (del_at pos xs) = set xs - {xs ! pos}"
proof -
  assume d: "distinct xs" and p: "pos < length xs"
  have xs: "xs = take pos xs @ xs ! pos # drop (Suc pos) xs"
    using p by (simp add: id_take_nth_drop)
  have "distinct (take pos xs @ xs ! pos # drop (Suc pos) xs)" using d xs by simp
  then have "xs ! pos \<notin> set (take pos xs)" "xs ! pos \<notin> set (drop (Suc pos) xs)" by auto
  moreover have "set xs = set (take pos xs) \<union> {xs ! pos} \<union> set (drop (Suc pos) xs)"
    by (subst xs) auto
  ultimately show ?thesis by (auto simp: del_at_def)
qed

lemma distinct_del_at: "distinct xs \<Longrightarrow> distinct (del_at pos xs)"
proof -
  assume d: "distinct xs"
  have "distinct (take pos xs @ drop pos xs)" using d by simp
  then have disj: "set (take pos xs) \<inter> set (drop pos xs) = {}" by (simp only: distinct_append)
  have "set (drop (Suc pos) xs) \<subseteq> set (drop pos xs)"
    by (rule set_drop_subset_set_drop) simp
  with disj have "set (take pos xs) \<inter> set (drop (Suc pos) xs) = {}" by blast
  then show ?thesis using d by (simp add: del_at_def)
qed

lemma cache_inv_clear:
  assumes "cache_inv s" "pos < length (cache_stack s)"
  shows "cache_inv (s\<lparr>stats := st, cache_stack := del_at pos (cache_stack s),
            cached_models := dict_del (cache_stack s ! pos) (cached_models s)\<rparr>)"
  using assms
  by (simp add: cache_inv_def distinct_del_at distinct_dict_del set_del_at keys_dict_del
      del: set_map)

lemma inv_lookup:
  assumes "cache_inv s" "pos < length (cache_stack s)"
  shows "\<exists>a. map_of (cached_models s) (cache_stack s ! pos) = Some a"
proof -
  have "cache_stack s ! pos \<in> set (map fst (cached_models s))"
    using assms by (metis cache_inv_def nth_mem)
  then show ?thesis by (metis map_of_eq_None_iff not_Some_eq set_map)
qed

subsection \<open>The scan of \<open>_make_cache_room\<close>\<close>

lemma make_room_loop_total:
  "cache_inv s \<Longrightarrow>
   \<exists>s'. make_room_loop rt bytes_needed maximum_size current_size pos s = (Inr (), s') \<and>
        cache_inv s' \<and> objs s' = objs s \<and> set (cached_models s') \<subseteq> set (cached_models s) \<and>
        set (cache_stack s') \<subseteq> set (cache_stack s)"
proof (induction rt bytes_needed maximum_size current_size pos s rule: make_room_loop.induct)
  case (1 rt bytes_needed maximum_size current_size pos s)
  show ?case
  proof (cases "of_int (current_size + bytes_needed) > maximum_size \<and> pos < length (cache_stack s)")
    case False
    then show ?thesis using "1.prems" by (subst make_room_loop.simps) auto
  next
    case True
    then have pos: "pos < length (cache_stack s)" by simp
    obtain a where a: "map_of (cached_models s) (cache_stack s ! pos) = Some a"
      using inv_lookup[OF "1.prems" pos] by blast
    show ?thesis
    proof (cases "clear_test (cache_stack s ! pos) (objs s a) (getrefcount rt a)")
      case t: True
      let ?s = "s\<lparr>stats := stats_cleared (stats s),
                  cache_stack := del_at pos (cache_stack s),
                  cached_models := dict_del (cache_stack s ! pos) (cached_models s)\<rparr>"
      have inv: "cache_inv ?s" using cache_inv_clear[OF "1.prems" pos] .
      from "1.IH"(1)[OF True refl a t inv] obtain s' where
        s': "make_room_loop rt bytes_needed maximum_size (current_size - size_bytes (objs s a)) pos ?s = (Inr (), s')"
          "cache_inv s'" "objs s' = objs ?s" "set (cached_models s') \<subseteq> set (cached_models ?s)"
          "set (cache_stack s') \<subseteq> set (cache_stack ?s)"
        by blast
      have "set (cache_stack ?s) \<subseteq> set (cache_stack s)"
        using set_del_at[of "cache_stack s" pos] "1.prems" pos by (auto simp: cache_inv_def)
      with s' set_dict_del_subset[of "cache_stack s ! pos" "cached_models s"] True a t
      show ?thesis
        by (subst make_room_loop.simps) auto
    next
      case f: False
      from "1.IH"(2)[OF True refl a f "1.prems"] True a f
      show ?thesis by (subst make_room_loop.simps) auto
    qed
  qed
qed

subsection \<open>What moving and offloading leave alone\<close>

lemma model_to_frame:
  assumes "model_to rt a d s = (r, s')"
  shows "same_registry s s'"
    and "\<And>b. locks (objs s' b) = locks (objs s b)"
    and "\<And>b. size_bytes (objs s' b) = size_bytes (objs s b)"
    and "\<And>b. has_to (model (objs s' b)) = has_to (model (objs s b))"
    and "\<And>b. b \<noteq> a \<Longrightarrow> objs s' b = objs s b"
    and "to_calls s' = to_calls s @ [(a, d)]"
  using assms by (auto simp: model_to_def same_registry_def Let_def split: sum.splits if_splits)

lemma model_to_ok:
  assumes "model_to rt a d s = (Inr u, s')"
  shows "device (model (objs s' a)) = Some d"
  using assms by (auto simp: model_to_def Let_def split: sum.splits)

lemma same_registry_refl: "same_registry s s"
  by (simp add: same_registry_def)

lemma same_registry_trans: "same_registry s s1 \<Longrightarrow> same_registry s1 s2 \<Longrightarrow> same_registry s s2"
  by (simp add: same_registry_def)

lemma offload_loop_frame:
  "offload_loop rt reserved items v s = (r, s') \<Longrightarrow>
   same_registry s s' \<and> (\<forall>b. locks (objs s' b) = locks (objs s b)) \<and>
   (\<forall>b. size_bytes (objs s' b) = size_bytes (objs s b)) \<and>
   (\<forall>b. has_to (model (objs s' b)) = has_to (model (objs s b)))"
proof (induction items arbitrary: v s)
  case Nil
  then show ?case by (simp add: same_registry_refl)
next
  case (Cons x items)
  obtain k a where x: "x = (k, a)" by (cases x)
  show ?case
  proof (cases "of_int v \<le> reserved")
    case True
    with Cons.prems x show ?thesis by (simp add: same_registry_refl)
  next
    case over: False
    show ?thesis
    proof (cases "\<not> locked (objs s a) \<and> loaded s (objs s a)")
      case False
      with over Cons.prems x have "offload_loop rt reserved items v s = (r, s')" by auto
      from Cons.IH[OF this] show ?thesis .
    next
      case True
      obtain r1 s1 where mt: "model_to rt a (storage_device s) s = (r1, s1)" by fastforce
      note fr = model_to_frame[OF mt]
      show ?thesis
      proof (cases r1)
        case (Inl e)
        with over True Cons.prems x mt have "s' = s1" by simp
        with fr show ?thesis by simp
      next
        case (Inr u)
        with over True Cons.prems x mt
        have "offload_loop rt reserved items (v + (cuda_allocated s1 - cuda_allocated s)) s1 = (r, s')"
          by simp
        from Cons.IH[OF this] fr show ?thesis
          by (auto intro: same_registry_trans)
      qed
    qed
  qed
qed

lemma offload_frame:
  assumes "offload_unlocked_models rt n s = (r, s')"
  shows "same_registry s s'" and "\<And>b. locks (objs s' b) = locks (objs s b)"
    and "\<And>b. has_to (model (objs s' b)) = has_to (model (objs s b))"
    and "\<And>b. size_bytes (objs s' b) = size_bytes (objs s b)"
  using offload_loop_frame[of rt _ _ _ s r s'] assms
  by (auto simp: offload_unlocked_models_def Let_def)

text \<open>A locked entry is never moved by the offloading.\<close>

lemma offload_loop_locked:
  "offload_loop rt reserved items v s = (r, s') \<Longrightarrow> locked (objs s a) \<Longrightarrow>
   objs s' a = objs s a \<and> (\<exists>calls. to_calls s' = to_calls s @ calls \<and> a \<notin> set (map fst calls))"
proof (induction items arbitrary: v s)
  case Nil
  then show ?case by simp
next
  case (Cons x items)
  obtain k b where x: "x = (k, b)" by (cases x)
  show ?case
  proof (cases "of_int v \<le> reserved")
    case True
    with Cons.prems x show ?thesis by simp
  next
    case over: False
    show ?thesis
    proof (cases "\<not> locked (objs s b) \<and> loaded s (objs s b)")
      case False
      with over Cons.prems x have "offload_loop rt reserved items v s = (r, s')" by auto
      from Cons.IH[OF this Cons.prems(2)] show ?thesis .
    next
      case True
      with Cons.prems(2) have ne: "a \<noteq> b" by auto
      obtain r1 s1 where mt: "model_to rt b (storage_device s) s = (r1, s1)" by fastforce
      note fr = model_to_frame[OF mt]
      have same: "objs s1 a = objs s a" using fr(5) ne by simp
      show ?thesis
      proof (cases r1)
        case (Inl e)
        with over True Cons.prems x mt have "s' = s1" by simp
        with fr same ne show ?thesis by simp
      next
        case (Inr u)
        with over True Cons.prems x mt
        have run: "offload_loop rt reserved items (v + (cuda_allocated s1 - cuda_allocated s)) s1 = (r, s')"
          by simp
        have "locked (objs s1 a)" using same Cons.prems(2) by simp
        from Cons.IH[OF run this] obtain calls where
          "objs s' a = objs s1 a" "to_calls s' = to_calls s1 @ calls" "a \<notin> set (map fst calls)"
          by blast
        with fr(6) same ne show ?thesis by simp
      qed
    qed
  qed
qed

subsection \<open>Entering and leaving a guard\<close>

lemma enter_try_frame:
  assumes "enter_try rt lk s = (r, s')"
  shows "same_registry s s'" and "\<And>b. locks (objs s' b) = locks (objs s b)"
proof -
  obtain r0 s0 where off:
    "(if lazy_offloading s then offload_unlocked_models rt (size_needed lk) s else (Inr (), s)) = (r0, s0)"
    by fastforce
  have f0: "same_registry s s0 \<and> (\<forall>b. locks (objs s0 b) = locks (objs s b))"
    using off offload_frame[of rt "size_needed lk" s r0 s0]
    by (auto simp: same_registry_refl split: if_splits)
  have "same_registry s s' \<and> (\<forall>b. locks (objs s' b) = locks (objs s b))"
  proof (cases r0)
    case (Inl e)
    with assms off have "s' = s0" by (simp add: enter_try_def)
    with f0 show ?thesis by simp
  next
    case (Inr u)
    show ?thesis
    proof (cases "device (model (objs s0 (cache_entry lk)))")
      case None
      with Inr assms off have "s' = s0" by (simp add: enter_try_def)
      with f0 show ?thesis by simp
    next
      case (Some d)
      show ?thesis
      proof (cases "d \<noteq> execution_device s0")
        case False
        with Some Inr assms off have "s' = s0" by (simp add: enter_try_def)
        with f0 show ?thesis by simp
      next
        case True
        with Some Inr assms off
        have "model_to rt (cache_entry lk) (execution_device s0) s0 = (r, s')"
          by (simp add: enter_try_def)
        from model_to_frame(1,2)[OF this] f0 show ?thesis
          by (auto intro: same_registry_trans)
      qed
    qed
  qed
  then show "same_registry s s'" and "\<And>b. locks (objs s' b) = locks (objs s b)" by auto
qed

text \<open>
  C6. When \<open>__enter__\<close> with \<open>gpu_load\<close> raises on a model with a method \<open>to\<close>, the
  exception comes from the \<open>try\<close> block that follows the lock (the lazy offloading or the
  move into the execution device), the state it leaves behind is the one after
  \<open>cache_entry.unlock()\<close>, and the lock count of the entry is what it was before
  \<open>__enter__\<close>. Unless the count was negative before, the exception that reaches the caller
  is the one of the \<open>try\<close> block.
\<close>

theorem failed_enter_releases_lock:
  assumes "has_to (model (objs s (cache_entry lk)))" and "gpu_load lk"
    and "locker_enter rt lk s = (Inl e, s')"
  shows "\<exists>e0 s2. enter_try rt lk (entry_lock (cache_entry lk) s) = (Inl e0, s2) \<and>
           s' = snd (entry_unlock (cache_entry lk) s2) \<and>
           locks (objs s' (cache_entry lk)) = locks (objs s (cache_entry lk)) \<and>
           (0 \<le> locks (objs s (cache_entry lk)) \<longrightarrow> e = e0)"
proof -
  let ?a = "cache_entry lk"
  obtain r0 s2 where tr: "enter_try rt lk (entry_lock ?a s) = (r0, s2)" by fastforce
  from assms tr obtain e0 where e0: "r0 = Inl e0"
    by (cases r0) (auto simp: locker_enter_def)
  have l2: "locks (objs s2 ?a) = locks (objs s ?a) + 1"
    using enter_try_frame(2)[OF tr, of ?a] by (simp add: entry_lock_def lock_def)
  obtain r3 s3 where un: "entry_unlock ?a s2 = (r3, s3)" by fastforce
  have s3: "s' = s3" using assms tr e0 un
    by (cases r3) (auto simp: locker_enter_def)
  have l3: "locks (objs s3 ?a) = locks (objs s ?a)"
    using un l2 by (auto simp: entry_unlock_def unlock_def Let_def split: if_splits)
  have "0 \<le> locks (objs s ?a) \<Longrightarrow> e = e0"
    using assms tr e0 un l2
    by (auto simp: locker_enter_def entry_unlock_def unlock_def Let_def split: if_splits)
  with tr e0 un s3 l3 show ?thesis by auto
qed

theorem failed_enter_releases_lock_witness:
  "has_to (model (objs (snd (get_model ex_rt_oom ''/m/a'' None True ex_cache))
      (cache_entry (ex_lk ''/m/a'' 0 True)))) \<and>
   gpu_load (ex_lk ''/m/a'' 0 True) \<and>
   fst (locker_enter ex_rt_oom (ex_lk ''/m/a'' 0 True)
         (snd (get_model ex_rt_oom ''/m/a'' None True ex_cache)))
     = Inl (Exception ''CUDA out of memory'') \<and>
   locks (objs (snd (locker_enter ex_rt_oom (ex_lk ''/m/a'' 0 True)
         (snd (get_model ex_rt_oom ''/m/a'' None True ex_cache)))) 0)
     = locks (objs (snd (get_model ex_rt_oom ''/m/a'' None True ex_cache)) 0)"
proof -
  let ?s = "snd (get_model ex_rt_oom ''/m/a'' None True ex_cache)"
  let ?lk = "ex_lk ''/m/a'' 0 True"
  have h1: "has_to (model (objs ?s (cache_entry ?lk)))" by (simp add: ex_defs)
  have h2: "gpu_load ?lk" by (simp add: ex_defs)
  have f: "fst (locker_enter ex_rt_oom ?lk ?s) = Inl (Exception ''CUDA out of memory'')"
    by (simp add: ex_defs)
  then have h3: "locker_enter ex_rt_oom ?lk ?s
      = (Inl (Exception ''CUDA out of memory''), snd (locker_enter ex_rt_oom ?lk ?s))"
    by (metis prod.collapse)
  from failed_enter_releases_lock[OF h1 h2 h3]
  have "locks (objs (snd (locker_enter ex_rt_oom ?lk ?s)) (cache_entry ?lk))
      = locks (objs ?s (cache_entry ?lk))" by blast
  moreover have "cache_entry ?lk = 0" by (simp add: ex_lk_def)
  ultimately show ?thesis using h1 h2 f by simp
qed

text \<open>
  C2 (the code at a failing input). \<open>/m/a\<close> is requested with \<open>gpu_load = False\<close> from the
  empty cache. \<open>__enter__\<close> takes no lock and changes nothing; \<open>__exit__\<close> calls \<open>unlock\<close>
  all the same: it raises the assertion error and leaves the lock count of the entry
  at -1, where it was 0 before the guard.
\<close>

theorem release_without_lock_unlocks:
  "fst (get_model ex_rt ''/m/a'' None False ex_cache) = Inr (ex_lk ''/m/a'' 0 False) \<and>
   locks (objs (snd (get_model ex_rt ''/m/a'' None False ex_cache)) 0) = 0 \<and>
   locker_enter ex_rt (ex_lk ''/m/a'' 0 False) (snd (get_model ex_rt ''/m/a'' None False ex_cache))
     = (Inr 0, snd (get_model ex_rt ''/m/a'' None False ex_cache)) \<and>
   fst (locker_exit ex_rt (ex_lk ''/m/a'' 0 False)
         (snd (get_model ex_rt ''/m/a'' None False ex_cache))) = Inl AssertionError \<and>
   locks (objs (snd (locker_exit ex_rt (ex_lk ''/m/a'' 0 False)
         (snd (get_model ex_rt ''/m/a'' None False ex_cache)))) 0) = - 1"
  by (simp add: ex_defs)

subsection \<open>Clearing a locked entry\<close>

text \<open>
  C1 (the code at a failing input). In a cache of 4 GB, \<open>/m/a\<close> (4 GB) is requested and
  its guard entered, so its lock count is 1; then \<open>/m/b\<close> (4 GB) is requested. The scan
  of \<open>_make_cache_room\<close> clears the locked \<open>/m/a\<close>: afterwards the dictionary and the
  stack hold \<open>/m/b\<close> only.
\<close>

theorem locked_entry_cleared:
  "fst (get_model ex_rt ''/m/a'' None True ex_cache) = Inr (ex_lk ''/m/a'' 0 True) \<and>
   fst (locker_enter ex_rt (ex_lk ''/m/a'' 0 True)
         (snd (get_model ex_rt ''/m/a'' None True ex_cache))) = Inr 0 \<and>
   locks (objs (snd (locker_enter ex_rt (ex_lk ''/m/a'' 0 True)
         (snd (get_model ex_rt ''/m/a'' None True ex_cache)))) 0) = 1 \<and>
   cached_models (snd (locker_enter ex_rt (ex_lk ''/m/a'' 0 True)
         (snd (get_model ex_rt ''/m/a'' None True ex_cache)))) = [(''/m/a'', 0)] \<and>
   cached_models (snd (get_model ex_rt ''/m/b'' None True
       (snd (locker_enter ex_rt (ex_lk ''/m/a'' 0 True)
         (snd (get_model ex_rt ''/m/a'' None True ex_cache)))))) = [(''/m/b'', 1)] \<and>
   cache_stack (snd (get_model ex_rt ''/m/b'' None True
       (snd (locker_enter ex_rt (ex_lk ''/m/a'' 0 True)
         (snd (get_model ex_rt ''/m/a'' None True ex_cache)))))) = [''/m/b'']"
  by (simp add: ex_defs)

subsection \<open>Entering a guard on a resident model\<close>

text \<open>
  C9 (the claim as stated fails). In \<open>ex_gh\<close> the model \<open>/m/h\<close> was just moved into the
  execution device by a successful \<open>__enter__\<close>. A second \<open>__enter__\<close> on it moves the
  unlocked \<open>/m/g\<close> to the CPU, since the usage is now above the reserve: a transfer is
  performed and the residency of \<open>/m/g\<close> changes.
\<close>

theorem second_promote_counterexample:
  "device (model (objs ex_gh 1)) = Some (execution_device ex_gh) \<and>
   locks (objs ex_gh 1) = 1 \<and>
   device (model (objs ex_gh 0)) = Some ''cuda'' \<and>
   fst (locker_enter ex_rt (ex_lk ''/m/h'' 1 True) ex_gh) = Inr 1 \<and>
   to_calls (snd (locker_enter ex_rt (ex_lk ''/m/h'' 1 True) ex_gh))
     = to_calls ex_gh @ [(0, ''cpu'')] \<and>
   device (model (objs (snd (locker_enter ex_rt (ex_lk ''/m/h'' 1 True) ex_gh)) 0))
     = Some ''cpu''"
  by (simp add: ex_defs)

lemma offload_locked:
  assumes "offload_unlocked_models rt n s = (r, s')" and "locked (objs s a)"
  shows "objs s' a = objs s a \<and> (\<exists>calls. to_calls s' = to_calls s @ calls \<and> a \<notin> set (map fst calls))"
  using assms offload_loop_locked[of rt _ _ _ s r s' a]
  by (simp add: offload_unlocked_models_def Let_def)

lemma enter_try_resident:
  assumes "locked (objs s (cache_entry lk))"
    and "device (model (objs s (cache_entry lk))) = Some (execution_device s)"
    and "enter_try rt lk s = (r, s')"
  shows "objs s' (cache_entry lk) = objs s (cache_entry lk) \<and>
         (\<exists>calls. to_calls s' = to_calls s @ calls \<and> cache_entry lk \<notin> set (map fst calls)) \<and>
         (\<not> lazy_offloading s \<longrightarrow> r = Inr () \<and> s' = s)"
proof (cases "lazy_offloading s")
  case False
  with assms show ?thesis by (simp add: enter_try_def)
next
  case True
  obtain r0 s0 where off: "offload_unlocked_models rt (size_needed lk) s = (r0, s0)" by fastforce
  note keep = offload_locked[OF off assms(1)]
  have ex: "execution_device s0 = execution_device s"
    using offload_frame(1)[OF off] by (simp add: same_registry_def)
  have "s' = s0"
    using assms(2,3) True off keep ex by (cases r0) (auto simp: enter_try_def)
  with keep True show ?thesis by simp
qed

text \<open>
  C9 (as amended). \<open>__enter__\<close> with \<open>gpu_load\<close> on an entry whose model has a method \<open>to\<close>,
  already reports the execution device and has a lock count that is not negative: the
  model of the entry still reports the execution device afterwards, and none of the calls
  of \<open>to\<close> issued by \<open>__enter__\<close> is on this entry (with lazy offloading, other entries
  may be moved to the storage device first). Without lazy offloading no call of \<open>to\<close> is
  issued at all: \<open>__enter__\<close> succeeds and only takes the lock.
\<close>

theorem enter_resident_keeps_residency:
  assumes "has_to (model (objs s (cache_entry lk)))" and "gpu_load lk"
    and "device (model (objs s (cache_entry lk))) = Some (execution_device s)"
    and "0 \<le> locks (objs s (cache_entry lk))"
    and "locker_enter rt lk s = (r, s')"
  shows "device (model (objs s' (cache_entry lk))) = Some (execution_device s') \<and>
         (\<exists>calls. to_calls s' = to_calls s @ calls \<and> cache_entry lk \<notin> set (map fst calls)) \<and>
         (\<not> lazy_offloading s \<longrightarrow> r = Inr (cache_entry lk) \<and> s' = entry_lock (cache_entry lk) s)"
proof -
  let ?a = "cache_entry lk"
  let ?s1 = "entry_lock ?a s"
  have l1: "locked (objs ?s1 ?a)" using assms(4) by (simp add: entry_lock_def lock_def locked_def)
  have d1: "device (model (objs ?s1 ?a)) = Some (execution_device ?s1)"
    using assms(3) by (simp add: entry_lock_def lock_def)
  obtain r2 s2 where tr: "enter_try rt lk ?s1 = (r2, s2)" by fastforce
  from enter_try_resident[OF l1 d1 tr] obtain calls where
    o2: "objs s2 ?a = objs ?s1 ?a" and
    c2: "to_calls s2 = to_calls ?s1 @ calls" "?a \<notin> set (map fst calls)" and
    z2: "\<not> lazy_offloading ?s1 \<longrightarrow> r2 = Inr () \<and> s2 = ?s1"
    by blast
  have e2: "execution_device s2 = execution_device s"
    using enter_try_frame(1)[OF tr] by (simp add: same_registry_def entry_lock_def)
  have t1: "to_calls ?s1 = to_calls s" and z1: "lazy_offloading ?s1 = lazy_offloading s"
    by (simp_all add: entry_lock_def)
  show ?thesis
  proof (cases r2)
    case (Inr u)
    with assms(1,2,5) tr have "r = Inr ?a" "s' = s2" by (simp_all add: locker_enter_def)
    with o2 c2 z2 d1 e2 t1 z1 show ?thesis by (auto simp: entry_lock_def)
  next
    case (Inl e)
    with z2 z1 have lazy: "lazy_offloading s" by auto
    from Inl assms(1,2,5) tr have "s' = snd (entry_unlock ?a s2)"
      by (auto simp: locker_enter_def split: prod.splits sum.splits)
    then have "device (model (objs s' ?a)) = device (model (objs s2 ?a))"
      "to_calls s' = to_calls s2" "execution_device s' = execution_device s2"
      by (simp_all add: entry_unlock_def unlock_def Let_def split: if_splits)
    with o2 c2 d1 e2 t1 lazy show ?thesis by (auto simp: entry_lock_def)
  qed
qed

theorem enter_resident_keeps_residency_witness:
  "has_to (model (objs ex_gh (cache_entry (ex_lk ''/m/h'' 1 True)))) \<and>
   gpu_load (ex_lk ''/m/h'' 1 True) \<and>
   device (model (objs ex_gh (cache_entry (ex_lk ''/m/h'' 1 True)))) = Some (execution_device ex_gh) \<and>
   0 \<le> locks (objs ex_gh (cache_entry (ex_lk ''/m/h'' 1 True))) \<and>
   device (model (objs (snd (locker_enter ex_rt (ex_lk ''/m/h'' 1 True) ex_gh)) 1)) = Some ''cuda''"
proof -
  let ?lk = "ex_lk ''/m/h'' 1 True"
  have h1: "has_to (model (objs ex_gh (cache_entry ?lk)))" by (simp add: ex_defs)
  have h2: "gpu_load ?lk" by (simp add: ex_defs)
  have h3: "device (model (objs ex_gh (cache_entry ?lk))) = Some (execution_device ex_gh)"
    by (simp add: ex_defs)
  have h4: "0 \<le> locks (objs ex_gh (cache_entry ?lk))" by (simp add: ex_defs)
  have h5: "locker_enter ex_rt ?lk ex_gh
      = (fst (locker_enter ex_rt ?lk ex_gh), snd (locker_enter ex_rt ?lk ex_gh))" by simp
  have ex: "execution_device (snd (locker_enter ex_rt ?lk ex_gh)) = ''cuda''"
    by (simp add: ex_defs)
  from enter_resident_keeps_residency[OF h1 h2 h3 h4 h5] ex
  have "device (model (objs (snd (locker_enter ex_rt ?lk ex_gh)) (cache_entry ?lk))) = Some ''cuda''"
    by simp
  moreover have "cache_entry ?lk = 1" by (simp add: ex_lk_def)
  ultimately show ?thesis using h1 h2 h3 h4 by simp
qed

subsection \<open>Offloading unlocked models\<close>

lemma map_snd_insort_key:
  "map snd (insort_key (\<lambda>kv. f (snd kv)) x xs) = insort_key f (snd x) (map snd xs)"
  by (induction xs) auto

lemma map_snd_sort_key:
  "map snd (sort_key (\<lambda>kv. f (snd kv)) xs) = sort_key f (map snd xs)"
  by (induction xs) (simp_all add: map_snd_insort_key)

lemma map_snd_sorted_items:
  "map snd (sorted_items s) = sort_key (\<lambda>a. size_bytes (objs s a)) (map snd (cached_models s))"
  unfolding sorted_items_def by (rule map_snd_sort_key)

lemma candidates_sorted_items:
  "offload_candidates s = filter (offload_candidate s) (map snd (sorted_items s))"
  by (simp add: offload_candidates_def map_snd_sorted_items filter_sort)

lemma offload_loop_step:
  "offload_loop rt reserve ((k, a) # rest) v s =
     (if of_int v \<le> reserve then (Inr (), s)
      else if offload_candidate s a then
        (case model_to rt a (storage_device s) s of
           (Inl e, s') \<Rightarrow> (Inl e, s')
         | (Inr u, s') \<Rightarrow>
             offload_loop rt reserve rest (v + (cuda_allocated s' - cuda_allocated s)) s')
      else offload_loop rt reserve rest v s)"
  by (simp add: offload_candidate_def)

lemma offload_spec_below:
  "of_int (cuda_allocated s) \<le> reserve \<Longrightarrow> offload_spec rt reserve cands s = (Inr (), s)"
  by (cases cands) simp_all

lemma candidate_after_move:
  assumes "model_to rt a (storage_device s) s = (r, s1)"
  shows "b \<noteq> a \<Longrightarrow> offload_candidate s1 b = offload_candidate s b"
    and "\<not> offload_candidate s b \<Longrightarrow> \<not> offload_candidate s1 b"
    and "r = Inr u \<Longrightarrow> \<not> offload_candidate s1 a"
  using assms
  by (auto simp: model_to_def offload_candidate_def loaded_def locked_def Let_def
      split: sum.splits if_splits option.splits)

lemma offload_loop_refines:
  "distinct (map snd items) \<Longrightarrow> v = cuda_allocated s \<Longrightarrow>
   offload_loop rt reserve items v s
     = offload_spec rt reserve (filter (offload_candidate s) (map snd items)) s"
proof (induction items arbitrary: v s)
  case Nil
  then show ?case by simp
next
  case (Cons x items)
  obtain k a where x: "x = (k, a)" by (cases x)
  from Cons.prems x have dist: "distinct (map snd items)" and fresh: "a \<notin> set (map snd items)"
    by auto
  show ?case
  proof (cases "of_int v \<le> reserve")
    case True
    with Cons.prems x show ?thesis by (simp add: offload_spec_below)
  next
    case over: False
    show ?thesis
    proof (cases "offload_candidate s a")
      case False
      with over x Cons.IH[OF dist Cons.prems(2)] show ?thesis
        by (simp add: offload_loop_step del: offload_loop.simps)
    next
      case True
      obtain r1 s1 where mt: "model_to rt a (storage_device s) s = (r1, s1)" by fastforce
      show ?thesis
      proof (cases r1)
        case (Inl e)
        with over True x mt Cons.prems(2) show ?thesis by (simp add: offload_loop_step del: offload_loop.simps)
      next
        case (Inr u)
        have same: "filter (offload_candidate s1) (map snd items)
            = filter (offload_candidate s) (map snd items)"
        proof (rule filter_cong[OF refl])
          fix b assume "b \<in> set (map snd items)"
          with fresh have "b \<noteq> a" by auto
          then show "offload_candidate s1 b = offload_candidate s b"
            by (rule candidate_after_move(1)[OF mt])
        qed
        have "offload_loop rt reserve items (cuda_allocated s1) s1
            = offload_spec rt reserve (filter (offload_candidate s1) (map snd items)) s1"
          by (rule Cons.IH[OF dist refl])
        with same Inr over True x mt Cons.prems(2) show ?thesis
          by (simp add: offload_loop_step del: offload_loop.simps)
      qed
    qed
  qed
qed

lemma offload_spec_calls:
  "offload_spec rt reserve cands s = (r, s') \<Longrightarrow>
   \<exists>m. to_calls s' = to_calls s @ map (\<lambda>a. (a, storage_device s)) (take m cands)"
proof (induction cands arbitrary: s)
  case Nil
  then show ?case by simp
next
  case (Cons a cands)
  show ?case
  proof (cases "of_int (cuda_allocated s) \<le> reserve")
    case True
    with Cons.prems have "s' = s" by simp
    then have "to_calls s' = to_calls s @ map (\<lambda>a. (a, storage_device s)) (take 0 (a # cands))"
      by simp
    then show ?thesis by blast
  next
    case over: False
    obtain r1 s1 where mt: "model_to rt a (storage_device s) s = (r1, s1)" by fastforce
    have c1: "to_calls s1 = to_calls s @ [(a, storage_device s)]"
      and sd: "storage_device s1 = storage_device s"
      using model_to_frame(1,6)[OF mt] by (simp_all add: same_registry_def)
    show ?thesis
    proof (cases r1)
      case (Inl e)
      with over mt Cons.prems have "s' = s1" by simp
      with c1 have "to_calls s' = to_calls s @ map (\<lambda>a. (a, storage_device s)) (take 1 (a # cands))"
        by simp
      then show ?thesis by blast
    next
      case (Inr u)
      with over mt Cons.prems have "offload_spec rt reserve cands s1 = (r, s')" by simp
      from Cons.IH[OF this] obtain m where
        "to_calls s' = to_calls s1 @ map (\<lambda>a. (a, storage_device s1)) (take m cands)" by blast
      with c1 sd
      have "to_calls s' = to_calls s @ map (\<lambda>a. (a, storage_device s)) (take (Suc m) (a # cands))"
        by simp
      then show ?thesis by blast
    qed
  qed
qed

lemma offload_loop_keeps_non_candidates:
  "offload_loop rt reserve items v s = (r, s') \<Longrightarrow> \<not> offload_candidate s b \<Longrightarrow>
   \<not> offload_candidate s' b"
proof (induction items arbitrary: v s)
  case Nil
  then show ?case by simp
next
  case (Cons x items)
  obtain k a where x: "x = (k, a)" by (cases x)
  show ?case
  proof (cases "of_int v \<le> reserve")
    case True
    with Cons.prems x show ?thesis by simp
  next
    case over: False
    show ?thesis
    proof (cases "offload_candidate s a")
      case False
      with over x Cons.prems(1)
      have "offload_loop rt reserve items v s = (r, s')" by (simp add: offload_loop_step del: offload_loop.simps)
      from Cons.IH[OF this Cons.prems(2)] show ?thesis .
    next
      case True
      obtain r1 s1 where mt: "model_to rt a (storage_device s) s = (r1, s1)" by fastforce
      have n1: "\<not> offload_candidate s1 b" using candidate_after_move(2)[OF mt Cons.prems(2)] .
      show ?thesis
      proof (cases r1)
        case (Inl e)
        with over True x mt Cons.prems(1) have "s' = s1" by (simp add: offload_loop_step del: offload_loop.simps)
        with n1 show ?thesis by simp
      next
        case (Inr u)
        with over True x mt Cons.prems(1)
        have "offload_loop rt reserve items (v + (cuda_allocated s1 - cuda_allocated s)) s1 = (r, s')"
          by (simp add: offload_loop_step del: offload_loop.simps)
        from Cons.IH[OF this n1] show ?thesis .
      qed
    qed
  qed
qed

lemma offload_loop_stop:
  "offload_loop rt reserve items v s = (Inr (), s') \<Longrightarrow> v = cuda_allocated s \<Longrightarrow>
   of_int (cuda_allocated s') \<le> reserve \<or> (\<forall>kv \<in> set items. \<not> offload_candidate s' (snd kv))"
proof (induction items arbitrary: v s)
  case Nil
  then show ?case by simp
next
  case (Cons x items)
  obtain k a where x: "x = (k, a)" by (cases x)
  show ?case
  proof (cases "of_int v \<le> reserve")
    case True
    with Cons.prems x show ?thesis by simp
  next
    case over: False
    show ?thesis
    proof (cases "offload_candidate s a")
      case False
      with over x Cons.prems(1)
      have run: "offload_loop rt reserve items v s = (Inr (), s')"
        by (simp add: offload_loop_step del: offload_loop.simps)
      from offload_loop_keeps_non_candidates[OF run False] Cons.IH[OF run Cons.prems(2)] x
      show ?thesis by auto
    next
      case True
      obtain r1 s1 where mt: "model_to rt a (storage_device s) s = (r1, s1)" by fastforce
      show ?thesis
      proof (cases r1)
        case (Inl e)
        with over True x mt Cons.prems(1) show ?thesis by (simp add: offload_loop_step del: offload_loop.simps)
      next
        case (Inr u)
        with over True x mt Cons.prems
        have run: "offload_loop rt reserve items (cuda_allocated s1) s1 = (Inr (), s')"
          by (simp add: offload_loop_step del: offload_loop.simps)
        have "\<not> offload_candidate s1 a" using candidate_after_move(3)[OF mt Inr] .
        from offload_loop_keeps_non_candidates[OF run this] Cons.IH[OF run refl] x
        show ?thesis by auto
      qed
    qed
  qed
qed

text \<open>
  C7. In a cache in which every key has a record of its own,
  \<open>_offload_unlocked_models\<close> does what the specification says of the candidates, the
  unlocked entries resident in the execution tier in ascending order of size
  (\<open>offload_spec\<close>): it moves the next candidate to the storage device while the usage
  exceeds the reserve. So the candidates are considered in ascending order of size; a
  locked entry is no candidate and comes out unchanged, whatever its size; the moves
  performed are those of an initial part of the candidates, in order; nothing is moved
  when the usage does not exceed the reserve at the start; and when the function returns,
  the usage is at or below the reserve or no cached entry is both unlocked and resident in
  the execution tier.
\<close>

theorem offload_refines_spec:
  assumes "distinct (map snd (cached_models s))"
    and "offload_unlocked_models rt n s = (r, s')"
  shows "offload_spec rt (max_vram_cache_size s * of_int GIG) (offload_candidates s) s = (r, s') \<and>
         sorted (map (\<lambda>a. size_bytes (objs s a)) (offload_candidates s)) \<and>
         (\<forall>a. locked (objs s a) \<longrightarrow> a \<notin> set (offload_candidates s) \<and> objs s' a = objs s a) \<and>
         (\<exists>m. to_calls s' = to_calls s @
                map (\<lambda>a. (a, storage_device s)) (take m (offload_candidates s))) \<and>
         (of_int (cuda_allocated s) \<le> max_vram_cache_size s * of_int GIG \<longrightarrow> r = Inr () \<and> s' = s) \<and>
         (r = Inr () \<longrightarrow>
            of_int (cuda_allocated s') \<le> max_vram_cache_size s * of_int GIG \<or>
            (\<forall>a \<in> set (map snd (cached_models s')). \<not> offload_candidate s' a))"
proof -
  let ?res = "max_vram_cache_size s * of_int GIG"
  have loop: "offload_loop rt ?res (sorted_items s) (cuda_allocated s) s = (r, s')"
    using assms(2) by (simp add: offload_unlocked_models_def Let_def)
  have "distinct (map snd (sorted_items s))"
    using assms(1) by (simp add: map_snd_sorted_items)
  from offload_loop_refines[OF this refl, of rt ?res] loop
  have spec: "offload_spec rt ?res (offload_candidates s) s = (r, s')"
    by (simp add: candidates_sorted_items)
  have srt: "sorted (map (\<lambda>a. size_bytes (objs s a)) (offload_candidates s))"
    by (simp add: offload_candidates_def)
  have lck: "\<forall>a. locked (objs s a) \<longrightarrow> a \<notin> set (offload_candidates s) \<and> objs s' a = objs s a"
    using offload_loop_locked[OF loop]
    by (auto simp: offload_candidates_def offload_candidate_def)
  have below: "of_int (cuda_allocated s) \<le> ?res \<longrightarrow> r = Inr () \<and> s' = s"
    using spec by (auto simp: offload_spec_below)
  have cm: "cached_models s' = cached_models s"
    using offload_frame(1)[OF assms(2)] by (simp add: same_registry_def)
  have stop: "r = Inr () \<longrightarrow> of_int (cuda_allocated s') \<le> ?res \<or>
      (\<forall>a \<in> set (map snd (cached_models s')). \<not> offload_candidate s' a)"
  proof
    assume "r = Inr ()"
    with loop have "offload_loop rt ?res (sorted_items s) (cuda_allocated s) s = (Inr (), s')"
      by simp
    from offload_loop_stop[OF this refl] cm
    show "of_int (cuda_allocated s') \<le> ?res \<or>
      (\<forall>a \<in> set (map snd (cached_models s')). \<not> offload_candidate s' a)"
      by (auto simp: sorted_items_def)
  qed
  from spec srt lck offload_spec_calls[OF spec] below stop show ?thesis by blast
qed

theorem offload_refines_spec_witness:
  "distinct (map snd (cached_models ex_gh)) \<and>
   offload_candidates ex_gh = [0] \<and>
   locked (objs ex_gh 1) \<and>
   \<not> of_int (cuda_allocated ex_gh) \<le> max_vram_cache_size ex_gh * of_int GIG \<and>
   fst (offload_unlocked_models ex_rt 0 ex_gh) = Inr () \<and>
   offload_spec ex_rt (max_vram_cache_size ex_gh * of_int GIG) (offload_candidates ex_gh) ex_gh
     = offload_unlocked_models ex_rt 0 ex_gh \<and>
   objs (snd (offload_unlocked_models ex_rt 0 ex_gh)) 1 = objs ex_gh 1 \<and>
   to_calls (snd (offload_unlocked_models ex_rt 0 ex_gh)) = to_calls ex_gh @ [(0, ''cpu'')]"
proof -
  let ?out = "offload_unlocked_models ex_rt 0 ex_gh"
  have h1: "distinct (map snd (cached_models ex_gh))" by (simp add: ex_defs)
  have h2: "?out = (fst ?out, snd ?out)" by simp
  have c: "offload_candidates ex_gh = [0]"
    by (simp add: ex_defs offload_candidates_def offload_candidate_def)
  have l: "locked (objs ex_gh 1)" by (simp add: ex_defs)
  have o: "\<not> of_int (cuda_allocated ex_gh) \<le> max_vram_cache_size ex_gh * of_int GIG"
    by (simp add: ex_defs)
  have r: "fst ?out = Inr ()" by (simp add: ex_defs)
  have t: "to_calls (snd ?out) = to_calls ex_gh @ [(0, ''cpu'')]" by (simp add: ex_defs)
  from offload_refines_spec[OF h1 h2] l
  have "offload_spec ex_rt (max_vram_cache_size ex_gh * of_int GIG) (offload_candidates ex_gh) ex_gh
      = ?out" and "objs (snd ?out) 1 = objs ex_gh 1"
    by simp_all
  with h1 c l o r t show ?thesis by simp
qed

subsection \<open>Making room\<close>

lemma nth_not_in_take: "distinct xs \<Longrightarrow> pos < length xs \<Longrightarrow> xs ! pos \<notin> set (take pos xs)"
proof -
  assume d: "distinct xs" and p: "pos < length xs"
  have "xs = take pos xs @ xs ! pos # drop (Suc pos) xs" using p by (simp add: id_take_nth_drop)
  then have "distinct (take pos xs @ xs ! pos # drop (Suc pos) xs)" using d by simp
  then show ?thesis by auto
qed

lemma nth_not_in_drop: "distinct xs \<Longrightarrow> pos < length xs \<Longrightarrow> xs ! pos \<notin> set (drop (Suc pos) xs)"
proof -
  assume d: "distinct xs" and p: "pos < length xs"
  have "xs = take pos xs @ xs ! pos # drop (Suc pos) xs" using p by (simp add: id_take_nth_drop)
  then have "distinct (take pos xs @ xs ! pos # drop (Suc pos) xs)" using d by simp
  then show ?thesis by auto
qed

lemma take_del_at: "pos < length xs \<Longrightarrow> take pos (del_at pos xs) = take pos xs"
  by (simp add: del_at_def)

lemma drop_del_at: "pos < length xs \<Longrightarrow> drop pos (del_at pos xs) = drop (Suc pos) xs"
  by (simp add: del_at_def)

lemma clearable_after_clear:
  "clearable rt (s\<lparr>stats := st, cache_stack := xs, cached_models := dict_del k0 (cached_models s)\<rparr>) k
     = (k \<noteq> k0 \<and> clearable rt s k)"
  by (auto simp: clearable_def map_of_dict_del split: option.splits)

lemma cache_size_after_clear:
  assumes "distinct (map fst (cached_models s))" and "map_of (cached_models s) k0 = Some a"
  shows "cache_size_bytes (s\<lparr>stats := st, cache_stack := xs,
            cached_models := dict_del k0 (cached_models s)\<rparr>)
         = cache_size_bytes s - size_bytes (objs s a)"
  using sum_dict_del[OF assms, of "\<lambda>a. size_bytes (objs s a)"]
  by (simp add: cache_size_bytes_def)

lemma make_room_loop_stop:
  "\<not> (of_int (current_size + bytes_needed) > maximum_size \<and> pos < length (cache_stack s)) \<Longrightarrow>
   make_room_loop rt bytes_needed maximum_size current_size pos s = (Inr (), s)"
  by (subst make_room_loop.simps) auto

lemma make_room_loop_missing:
  "of_int (current_size + bytes_needed) > maximum_size \<and> pos < length (cache_stack s) \<Longrightarrow>
   map_of (cached_models s) (cache_stack s ! pos) = None \<Longrightarrow>
   make_room_loop rt bytes_needed maximum_size current_size pos s = (Inl KeyError, s)"
  by (subst make_room_loop.simps) auto

lemma make_room_loop_clear:
  "of_int (current_size + bytes_needed) > maximum_size \<and> pos < length (cache_stack s) \<Longrightarrow>
   map_of (cached_models s) (cache_stack s ! pos) = Some a \<Longrightarrow>
   clear_test (cache_stack s ! pos) (objs s a) (getrefcount rt a) \<Longrightarrow>
   make_room_loop rt bytes_needed maximum_size current_size pos s
     = make_room_loop rt bytes_needed maximum_size (current_size - size_bytes (objs s a)) pos
         (s\<lparr>stats := stats_cleared (stats s),
            cache_stack := del_at pos (cache_stack s),
            cached_models := dict_del (cache_stack s ! pos) (cached_models s)\<rparr>)"
  by (subst make_room_loop.simps) auto

lemma make_room_loop_skip:
  "of_int (current_size + bytes_needed) > maximum_size \<and> pos < length (cache_stack s) \<Longrightarrow>
   map_of (cached_models s) (cache_stack s ! pos) = Some a \<Longrightarrow>
   \<not> clear_test (cache_stack s ! pos) (objs s a) (getrefcount rt a) \<Longrightarrow>
   make_room_loop rt bytes_needed maximum_size current_size pos s
     = make_room_loop rt bytes_needed maximum_size current_size (pos + 1) s"
  by (subst make_room_loop.simps) auto

lemma make_room_loop_keeps:
  "make_room_loop rt bytes_needed maximum_size current_size pos s = (r, s') \<Longrightarrow>
   objs s' = objs s \<and> max_cache_size s' = max_cache_size s \<and> next_ref s' = next_ref s \<and>
   to_calls s' = to_calls s \<and> cuda_allocated s' = cuda_allocated s"
proof (induction rt bytes_needed maximum_size current_size pos s rule: make_room_loop.induct)
  case (1 rt bytes_needed maximum_size current_size pos s)
  show ?case
  proof (cases "of_int (current_size + bytes_needed) > maximum_size \<and> pos < length (cache_stack s)")
    case False
    with "1.prems" show ?thesis by (simp add: make_room_loop_stop)
  next
    case True
    show ?thesis
    proof (cases "map_of (cached_models s) (cache_stack s ! pos)")
      case None
      with True "1.prems" show ?thesis by (simp add: make_room_loop_missing)
    next
      case (Some a)
      show ?thesis
      proof (cases "clear_test (cache_stack s ! pos) (objs s a) (getrefcount rt a)")
        case t: True
        from "1.prems" make_room_loop_clear[OF True Some t]
        have "make_room_loop rt bytes_needed maximum_size (current_size - size_bytes (objs s a)) pos
                (s\<lparr>stats := stats_cleared (stats s),
                   cache_stack := del_at pos (cache_stack s),
                   cached_models := dict_del (cache_stack s ! pos) (cached_models s)\<rparr>) = (r, s')"
          by simp
        from "1.IH"(1)[OF True refl Some t this] show ?thesis by simp
      next
        case f: False
        from "1.prems" make_room_loop_skip[OF True Some f]
        have "make_room_loop rt bytes_needed maximum_size current_size (pos + 1) s = (r, s')"
          by simp
        from "1.IH"(2)[OF True refl Some f this] show ?thesis .
      qed
    qed
  qed
qed

lemma make_room_loop_budget:
  "cache_inv s \<Longrightarrow> current_size = cache_size_bytes s \<Longrightarrow>
   (\<forall>k \<in> set (take pos (cache_stack s)). \<not> clearable rt s k) \<Longrightarrow>
   make_room_loop rt bytes_needed maximum_size current_size pos s = (r, s') \<Longrightarrow>
   of_int (cache_size_bytes s' + bytes_needed) \<le> maximum_size \<or>
   (\<forall>k \<in> set (cache_stack s'). \<not> clearable rt s' k)"
proof (induction rt bytes_needed maximum_size current_size pos s rule: make_room_loop.induct)
  case (1 rt bytes_needed maximum_size current_size pos s)
  note inv = "1.prems"(1) and cs = "1.prems"(2) and pre = "1.prems"(3) and run = "1.prems"(4)
  show ?case
  proof (cases "of_int (current_size + bytes_needed) > maximum_size \<and> pos < length (cache_stack s)")
    case False
    with run have "s' = s" by (simp add: make_room_loop_stop)
    with False cs pre show ?thesis by (auto simp: not_less)
  next
    case True
    then have pos: "pos < length (cache_stack s)" by simp
    obtain a where a: "map_of (cached_models s) (cache_stack s ! pos) = Some a"
      using inv_lookup[OF inv pos] by blast
    have dk: "distinct (map fst (cached_models s))" and ds: "distinct (cache_stack s)"
      using inv by (simp_all add: cache_inv_def)
    show ?thesis
    proof (cases "clear_test (cache_stack s ! pos) (objs s a) (getrefcount rt a)")
      case t: True
      let ?s = "s\<lparr>stats := stats_cleared (stats s),
                  cache_stack := del_at pos (cache_stack s),
                  cached_models := dict_del (cache_stack s ! pos) (cached_models s)\<rparr>"
      from run make_room_loop_clear[OF True a t]
      have run': "make_room_loop rt bytes_needed maximum_size
                    (current_size - size_bytes (objs s a)) pos ?s = (r, s')"
        by simp
      have inv': "cache_inv ?s" by (rule cache_inv_clear[OF inv pos])
      have cs': "current_size - size_bytes (objs s a) = cache_size_bytes ?s"
        using cache_size_after_clear[OF dk a] cs by simp
      have pre': "\<forall>k \<in> set (take pos (cache_stack ?s)). \<not> clearable rt ?s k"
        using pre pos by (simp add: take_del_at clearable_after_clear)
      from "1.IH"(1)[OF True refl a t inv' cs' pre' run'] show ?thesis .
    next
      case f: False
      from run make_room_loop_skip[OF True a f]
      have run': "make_room_loop rt bytes_needed maximum_size current_size (pos + 1) s = (r, s')"
        by simp
      have "\<not> clearable rt s (cache_stack s ! pos)" using a f by (simp add: clearable_def)
      with pre pos have pre': "\<forall>k \<in> set (take (pos + 1) (cache_stack s)). \<not> clearable rt s k"
        by (auto simp: take_Suc_conv_app_nth)
      from "1.IH"(2)[OF True refl a f inv cs pre' run'] show ?thesis .
    qed
  qed
qed

lemma make_room_loop_scan:
  "cache_inv s \<Longrightarrow> pos \<le> length (cache_stack s) \<Longrightarrow>
   make_room_loop rt bytes_needed maximum_size current_size pos s = (r, s') \<Longrightarrow>
   \<exists>scanned rest. drop pos (cache_stack s) = scanned @ rest \<and>
     cache_stack s' = take pos (cache_stack s) @ filter (\<lambda>k. \<not> clearable rt s k) scanned @ rest"
proof (induction rt bytes_needed maximum_size current_size pos s rule: make_room_loop.induct)
  case (1 rt bytes_needed maximum_size current_size pos s)
  note inv = "1.prems"(1) and run = "1.prems"(3)
  show ?case
  proof (cases "of_int (current_size + bytes_needed) > maximum_size \<and> pos < length (cache_stack s)")
    case False
    with run have "s' = s" by (simp add: make_room_loop_stop)
    then have "drop pos (cache_stack s) = [] @ drop pos (cache_stack s) \<and>
      cache_stack s' = take pos (cache_stack s) @ filter (\<lambda>k. \<not> clearable rt s k) []
        @ drop pos (cache_stack s)" by simp
    then show ?thesis by blast
  next
    case True
    then have pos: "pos < length (cache_stack s)" by simp
    obtain a where a: "map_of (cached_models s) (cache_stack s ! pos) = Some a"
      using inv_lookup[OF inv pos] by blast
    have ds: "distinct (cache_stack s)" using inv by (simp add: cache_inv_def)
    let ?k = "cache_stack s ! pos"
    have dr: "drop pos (cache_stack s) = ?k # drop (Suc pos) (cache_stack s)"
      using pos by (simp add: Cons_nth_drop_Suc)
    show ?thesis
    proof (cases "clear_test ?k (objs s a) (getrefcount rt a)")
      case t: True
      let ?s = "s\<lparr>stats := stats_cleared (stats s),
                  cache_stack := del_at pos (cache_stack s),
                  cached_models := dict_del ?k (cached_models s)\<rparr>"
      from run make_room_loop_clear[OF True a t]
      have run': "make_room_loop rt bytes_needed maximum_size
                    (current_size - size_bytes (objs s a)) pos ?s = (r, s')"
        by simp
      have inv': "cache_inv ?s" by (rule cache_inv_clear[OF inv pos])
      have le': "pos \<le> length (cache_stack ?s)" using pos by (simp add: length_del_at)
      from "1.IH"(1)[OF True refl a t inv' le' run'] obtain scanned rest where
        sp: "drop (Suc pos) (cache_stack s) = scanned @ rest" and
        st: "cache_stack s' = take pos (cache_stack s) @
               filter (\<lambda>k. \<not> clearable rt ?s k) scanned @ rest"
        using pos by (auto simp: take_del_at drop_del_at)
      have "?k \<notin> set scanned" using nth_not_in_drop[OF ds pos] sp by simp
      then have same: "filter (\<lambda>k. \<not> clearable rt ?s k) scanned
          = filter (\<lambda>k. \<not> clearable rt s k) scanned"
        by (intro filter_cong[OF refl]) (auto simp: clearable_after_clear)
      have cl: "clearable rt s ?k" using a t by (simp add: clearable_def)
      have "drop pos (cache_stack s) = (?k # scanned) @ rest \<and>
        cache_stack s' = take pos (cache_stack s) @
          filter (\<lambda>k. \<not> clearable rt s k) (?k # scanned) @ rest"
        using dr sp st same cl by simp
      then show ?thesis by blast
    next
      case f: False
      from run make_room_loop_skip[OF True a f]
      have run': "make_room_loop rt bytes_needed maximum_size current_size (pos + 1) s = (r, s')"
        by simp
      have le': "pos + 1 \<le> length (cache_stack s)" using pos by simp
      from "1.IH"(2)[OF True refl a f inv le' run'] obtain scanned rest where
        sp: "drop (Suc pos) (cache_stack s) = scanned @ rest" and
        st: "cache_stack s' = take (Suc pos) (cache_stack s) @
               filter (\<lambda>k. \<not> clearable rt s k) scanned @ rest"
        by auto
      have ncl: "\<not> clearable rt s ?k" using a f by (simp add: clearable_def)
      have "drop pos (cache_stack s) = (?k # scanned) @ rest \<and>
        cache_stack s' = take pos (cache_stack s) @
          filter (\<lambda>k. \<not> clearable rt s k) (?k # scanned) @ rest"
        using dr sp st ncl pos by (simp add: take_Suc_conv_app_nth)
      then show ?thesis by blast
    qed
  qed
qed

lemma clearable_entry:
  assumes "distinct (map fst (cached_models s))" and "kv \<in> set (cached_models s)"
  shows "clearable rt s (fst kv) = clear_test (fst kv) (objs s (snd kv)) (getrefcount rt (snd kv))"
proof -
  have "map_of (cached_models s) (fst kv) = Some (snd kv)"
    using assms by (cases kv) simp
  then show ?thesis by (simp add: clearable_def)
qed

text \<open>
  What the scan leaves behind, in terms of its own test: the function returns, and the
  budget is met or the test is false for every entry still cached.
\<close>

lemma make_cache_room_scanned:
  assumes "cache_inv s"
  shows "\<exists>s'. make_cache_room rt model_size s = (Inr (), s') \<and>
           (of_int (cache_size_bytes s' + model_size) \<le> max_cache_size s' * of_int GIG \<or>
            (\<forall>kv \<in> set (cached_models s').
               \<not> clear_test (fst kv) (objs s (snd kv)) (getrefcount rt (snd kv))))"
proof -
  let ?mx = "max_cache_size s * of_int GIG"
  from make_room_loop_total[OF assms, of rt model_size ?mx "cache_size_bytes s" 0]
  obtain s' where run: "make_room_loop rt model_size ?mx (cache_size_bytes s) 0 s = (Inr (), s')"
    and inv': "cache_inv s'" and ob: "objs s' = objs s"
    by blast
  have mk: "make_cache_room rt model_size s = (Inr (), s')"
    using run by (simp add: make_cache_room_def Let_def)
  have mx: "max_cache_size s' = max_cache_size s"
    using make_room_loop_keeps[OF run] by simp
  have "of_int (cache_size_bytes s' + model_size) \<le> ?mx \<or>
      (\<forall>k \<in> set (cache_stack s'). \<not> clearable rt s' k)"
    by (rule make_room_loop_budget[OF assms refl _ run]) simp
  moreover have "\<forall>kv \<in> set (cached_models s').
      \<not> clear_test (fst kv) (objs s (snd kv)) (getrefcount rt (snd kv))"
    if all: "\<forall>k \<in> set (cache_stack s'). \<not> clearable rt s' k"
  proof
    fix kv assume kv: "kv \<in> set (cached_models s')"
    from inv' have dk: "distinct (map fst (cached_models s'))"
      and eq: "set (cache_stack s') = set (map fst (cached_models s'))"
      by (simp_all add: cache_inv_def)
    from kv eq have "fst kv \<in> set (cache_stack s')" by auto
    with all have "\<not> clearable rt s' (fst kv)" by blast
    with clearable_entry[OF dk kv, of rt] ob
    show "\<not> clear_test (fst kv) (objs s (snd kv)) (getrefcount rt (snd kv))" by simp
  qed
  ultimately show ?thesis using mk mx by auto
qed

text \<open>
  The safe-to-evict threshold of the reference count that the comment in
  \<open>_make_cache_room\<close> gives: 3 for a key that contains \<open>onnx\<close>, 2 otherwise.
\<close>

lemma kept_entry_locked_or_referenced:
  assumes "\<not> clear_test k entry refs"
  shows "locked entry \<or> (if str_contains ''onnx'' k then 3 else 2) < refs"
  using assms by (auto simp: clear_test_def split: if_splits)

text \<open>
  C4 (as amended). In a cache that satisfies the invariant of the registry,
  \<open>_make_cache_room\<close> returns without raising, the records are as before, and afterwards
  either the size of the cache plus the bytes needed is within the budget, or every entry
  still cached is locked or has a reference count above the safe-to-evict threshold. In
  the second case the function has returned all the same: the cache stays over the
  budget.
\<close>

theorem make_cache_room_target:
  assumes "cache_inv s"
  shows "\<exists>s'. make_cache_room rt model_size s = (Inr (), s') \<and> objs s' = objs s \<and>
           (of_int (cache_size_bytes s' + model_size) \<le> max_cache_size s' * of_int GIG \<or>
            (\<forall>kv \<in> set (cached_models s').
               locked (objs s (snd kv)) \<or>
               (if str_contains ''onnx'' (fst kv) then 3 else 2) < getrefcount rt (snd kv)))"
proof -
  from make_cache_room_scanned[OF assms, of rt model_size] obtain s' where
    mk: "make_cache_room rt model_size s = (Inr (), s')" and
    alt: "of_int (cache_size_bytes s' + model_size) \<le> max_cache_size s' * of_int GIG \<or>
          (\<forall>kv \<in> set (cached_models s').
             \<not> clear_test (fst kv) (objs s (snd kv)) (getrefcount rt (snd kv)))"
    by blast
  have ob: "objs s' = objs s"
    using mk make_room_loop_keeps[of rt model_size _ _ 0 s "Inr ()" s']
    by (simp add: make_cache_room_def Let_def)
  from alt have "of_int (cache_size_bytes s' + model_size) \<le> max_cache_size s' * of_int GIG \<or>
      (\<forall>kv \<in> set (cached_models s').
         locked (objs s (snd kv)) \<or>
         (if str_contains ''onnx'' (fst kv) then 3 else 2) < getrefcount rt (snd kv))"
    using kept_entry_locked_or_referenced by blast
  with mk ob show ?thesis by blast
qed

theorem make_cache_room_target_witness:
  "cache_inv ex_onnx \<and>
   fst (make_cache_room ex_rt (4 * GIG) ex_onnx) = Inr () \<and>
   cached_models (snd (make_cache_room ex_rt (4 * GIG) ex_onnx)) = [(''/m/unet.onnx'', 0)] \<and>
   \<not> of_int (cache_size_bytes (snd (make_cache_room ex_rt (4 * GIG) ex_onnx)) + 4 * GIG)
       \<le> max_cache_size (snd (make_cache_room ex_rt (4 * GIG) ex_onnx)) * of_int GIG \<and>
   getrefcount ex_rt 0 = 2 \<and>
   locked (objs ex_onnx 0)"
proof -
  let ?out = "make_cache_room ex_rt (4 * GIG) ex_onnx"
  have inv: "cache_inv ex_onnx" by (simp add: cache_inv_def ex_defs)
  have cm: "cached_models (snd ?out) = [(''/m/unet.onnx'', 0)]" by (simp add: ex_defs)
  have over: "\<not> of_int (cache_size_bytes (snd ?out) + 4 * GIG)
       \<le> max_cache_size (snd ?out) * of_int GIG" by (simp add: ex_defs)
  have refs: "getrefcount ex_rt 0 = 2" by (simp add: ex_defs)
  from make_cache_room_target[OF inv, of ex_rt "4 * GIG"] obtain s' where
    out: "?out = (Inr (), s')" and
    alt: "of_int (cache_size_bytes s' + 4 * GIG) \<le> max_cache_size s' * of_int GIG \<or>
          (\<forall>kv \<in> set (cached_models s').
             locked (objs ex_onnx (snd kv)) \<or>
             (if str_contains ''onnx'' (fst kv) then 3 else 2) < getrefcount ex_rt (snd kv))"
    by blast
  from out have s': "s' = snd ?out" by simp
  from alt over cm s' refs have "locked (objs ex_onnx 0)" by auto
  with inv cm over out refs show ?thesis by simp
qed

text \<open>
  The claim as the specification states it, where the entries that may stay are the
  locked ones, fails: in a cache of 4 GB that holds the unlocked \<open>/m/unet.onnx\<close> (4 GB)
  with 6 references to its model, \<open>_make_cache_room\<close> for 4 GB more returns with the
  entry still cached and the cache over the budget.
\<close>

theorem unlocked_entry_kept_counterexample:
  "cached_models ex_busy = [(''/m/unet.onnx'', 0)] \<and>
   \<not> locked (objs ex_busy 0) \<and>
   fst (make_cache_room ex_rt_busy (4 * GIG) ex_busy) = Inr () \<and>
   cached_models (snd (make_cache_room ex_rt_busy (4 * GIG) ex_busy)) = [(''/m/unet.onnx'', 0)] \<and>
   \<not> of_int (cache_size_bytes (snd (make_cache_room ex_rt_busy (4 * GIG) ex_busy)) + 4 * GIG)
       \<le> max_cache_size (snd (make_cache_room ex_rt_busy (4 * GIG) ex_busy)) * of_int GIG"
  by (simp add: ex_defs)

subsection \<open>Requesting a model\<close>

lemma cache_inv_cong:
  "cached_models s' = cached_models s \<Longrightarrow> cache_stack s' = cache_stack s \<Longrightarrow>
   cache_inv s' = cache_inv s"
  by (simp add: cache_inv_def)

lemma cache_inv_same_registry: "same_registry s s' \<Longrightarrow> cache_inv s \<Longrightarrow> cache_inv s'"
  by (simp add: same_registry_def cache_inv_def)

lemma clearable_stats [simp]: "clearable rt (s\<lparr>stats := st\<rparr>) k = clearable rt s k"
  by (simp add: clearable_def split: option.splits)

lemma make_cache_room_result:
  assumes "cache_inv s"
  shows "\<exists>s'. make_cache_room rt n s = (Inr (), s') \<and> cache_inv s' \<and> objs s' = objs s \<and>
           set (cached_models s') \<subseteq> set (cached_models s) \<and>
           (\<exists>scanned rest. cache_stack s = scanned @ rest \<and>
              cache_stack s' = filter (\<lambda>k. \<not> clearable rt s k) scanned @ rest)"
proof -
  let ?mx = "max_cache_size s * of_int GIG"
  from make_room_loop_total[OF assms, of rt n ?mx "cache_size_bytes s" 0]
  obtain s' where run: "make_room_loop rt n ?mx (cache_size_bytes s) 0 s = (Inr (), s')"
    and rest: "cache_inv s'" "objs s' = objs s" "set (cached_models s') \<subseteq> set (cached_models s)"
    by blast
  from make_room_loop_scan[OF assms _ run] obtain scanned rest' where
    "cache_stack s = scanned @ rest'"
    "cache_stack s' = filter (\<lambda>k. \<not> clearable rt s k) scanned @ rest'"
    by auto
  with run rest show ?thesis by (auto simp: make_cache_room_def Let_def)
qed


lemma get_model_not_found:
  "\<not> path_exists rt p \<Longrightarrow> snd (get_model rt p sub g s) = s"
  by (simp add: get_model_def)

lemma get_model_hit:
  assumes "path_exists rt p" and "map_of (cached_models s) (get_key p sub) = Some a"
  shows "fst (get_model rt p sub g s)
           = Inr \<lparr>gpu_load = g, key = get_key p sub, cache_entry = a,
                  size_needed = size_bytes (objs s a)\<rparr>"
    and "cached_models (snd (get_model rt p sub g s)) = cached_models s"
    and "cache_stack (snd (get_model rt p sub g s))
           = remove1 (get_key p sub) (cache_stack s) @ [get_key p sub]"
  using assms by (simp_all add: get_model_def Let_def stats_access_def)

lemma get_model_load_fails:
  assumes "path_exists rt p" and "map_of (cached_models s) (get_key p sub) = None"
    and "load_model rt p sub = Inl e"
    and "make_cache_room rt (get_size rt p sub)
           (s\<lparr>stats := map_option (\<lambda>c. c\<lparr>misses := misses c + 1\<rparr>) (stats s)\<rparr>) = (Inr (), s2)"
  shows "get_model rt p sub g s = (Inl e, s2)"
  using assms by (simp add: get_model_def Let_def)

lemma get_model_loads:
  assumes "path_exists rt p" and "map_of (cached_models s) (get_key p sub) = None"
    and "load_model rt p sub = Inr m"
    and "make_cache_room rt (get_size rt p sub)
           (s\<lparr>stats := map_option (\<lambda>c. c\<lparr>misses := misses c + 1\<rparr>) (stats s)\<rparr>) = (Inr (), s2)"
    and "map_of (cached_models s2) (get_key p sub) = None"
  shows "fst (get_model rt p sub g s)
           = Inr \<lparr>gpu_load = g, key = get_key p sub, cache_entry = next_ref s2,
                  size_needed = get_size rt p sub\<rparr>"
    and "cached_models (snd (get_model rt p sub g s))
           = cached_models s2 @ [(get_key p sub, next_ref s2)]"
    and "cache_stack (snd (get_model rt p sub g s))
           = remove1 (get_key p sub) (cache_stack s2) @ [get_key p sub]"
  using assms by (simp_all add: get_model_def Let_def stats_access_def map_add_def)

lemma map_of_None_subset:
  "map_of d k = None \<Longrightarrow> set d' \<subseteq> set d \<Longrightarrow> map_of d' k = None"
  by (auto simp: map_of_eq_None_iff)






subsection \<open>The order of the stack and the invariant of the registry\<close>

lemma entry_lock_frame: "same_registry s (entry_lock a s)"
  by (simp add: same_registry_def entry_lock_def)

lemma entry_unlock_frame: "entry_unlock a s = (r, s') \<Longrightarrow> same_registry s s'"
  by (auto simp: same_registry_def entry_unlock_def split: prod.splits)

lemma locker_enter_frame:
  assumes "locker_enter rt lk s = (r, s')"
  shows "same_registry s s'"
proof (cases "has_to (model (objs s (cache_entry lk)))")
  case False
  with assms show ?thesis by (simp add: locker_enter_def same_registry_refl)
next
  case to: True
  let ?a = "cache_entry lk"
  show ?thesis
  proof (cases "gpu_load lk")
    case True
    obtain r2 s2 where tr: "enter_try rt lk (entry_lock ?a s) = (r2, s2)" by fastforce
    have f2: "same_registry s s2"
      using same_registry_trans[OF entry_lock_frame enter_try_frame(1)[OF tr]] .
    show ?thesis
    proof (cases r2)
      case (Inr u)
      with assms to True tr have "s' = s2" by (simp add: locker_enter_def)
      with f2 show ?thesis by simp
    next
      case (Inl e)
      obtain r3 s3 where un: "entry_unlock ?a s2 = (r3, s3)" by fastforce
      with assms to True tr Inl have "s' = s3" by (cases r3) (simp_all add: locker_enter_def)
      with same_registry_trans[OF f2 entry_unlock_frame[OF un]] show ?thesis by simp
    qed
  next
    case False
    show ?thesis
    proof (cases "loaded s (objs s ?a) \<and> \<not> locked (objs s ?a)")
      case False
      with assms to \<open>\<not> gpu_load lk\<close> have "s' = s" by (auto simp: locker_enter_def)
      then show ?thesis by (simp add: same_registry_refl)
    next
      case True
      obtain r1 s1 where mt: "model_to rt ?a (storage_device s) s = (r1, s1)" by fastforce
      with assms to \<open>\<not> gpu_load lk\<close> True have "s' = s1"
        by (cases r1) (simp_all add: locker_enter_def)
      with model_to_frame(1)[OF mt] show ?thesis by simp
    qed
  qed
qed

lemma locker_exit_frame:
  assumes "locker_exit rt lk s = (r, s')"
  shows "same_registry s s'"
proof (cases "has_to (model (objs s (cache_entry lk)))")
  case False
  with assms show ?thesis by (simp add: locker_exit_def same_registry_refl)
next
  case to: True
  obtain r1 s1 where un: "entry_unlock (cache_entry lk) s = (r1, s1)" by fastforce
  note f1 = entry_unlock_frame[OF un]
  show ?thesis
  proof (cases r1)
    case (Inl e)
    with assms to un have "s' = s1" by (simp add: locker_exit_def)
    with f1 show ?thesis by simp
  next
    case (Inr u)
    show ?thesis
    proof (cases "lazy_offloading s1")
      case True
      with assms to un Inr have "s' = s1" by (simp add: locker_exit_def)
      with f1 show ?thesis by simp
    next
      case False
      with assms to un Inr have "offload_unlocked_models rt 0 s1 = (r, s')"
        by (simp add: locker_exit_def)
      from same_registry_trans[OF f1 offload_frame(1)[OF this]] show ?thesis .
    qed
  qed
qed

lemma cache_inv_uncache: "cache_inv s \<Longrightarrow> cache_inv (uncache_model k s)"
  by (auto simp: cache_inv_def uncache_model_def distinct_dict_del keys_dict_del
      simp del: set_map)

lemma cache_inv_touch:
  assumes "cache_inv s" and "k \<in> set (map fst (cached_models s))"
  shows "cache_inv (s\<lparr>cache_stack := remove1 k (cache_stack s) @ [k]\<rparr>)"
  using assms by (auto simp: cache_inv_def simp del: set_map)

lemma get_model_lru:
  assumes inv: "cache_inv s" and run: "get_model rt p sub g s = (r, s')"
  shows "cache_inv s' \<and>
         (\<forall>lk. r = Inr lk \<longrightarrow>
            key lk = get_key p sub \<and> cache_stack s' \<noteq> [] \<and>
            last (cache_stack s') = get_key p sub \<and>
            map_of (cached_models s') (get_key p sub) = Some (cache_entry lk) \<and>
            (map_of (cached_models s) (get_key p sub) \<noteq> None \<longrightarrow>
               cache_stack s' = remove1 (get_key p sub) (cache_stack s) @ [get_key p sub]) \<and>
            (map_of (cached_models s) (get_key p sub) = None \<longrightarrow>
               (\<exists>scanned rest. cache_stack s = scanned @ rest \<and>
                  cache_stack s' =
                    filter (\<lambda>k. \<not> clearable rt s k) scanned @ rest @ [get_key p sub])))"
proof (cases "path_exists rt p")
  case False
  with run have "s' = s" "r = Inl (Exception (''Model not found: '' @ p))"
    by (simp_all add: get_model_def)
  with inv show ?thesis by simp
next
  case ex: True
  let ?k = "get_key p sub"
  show ?thesis
  proof (cases "map_of (cached_models s) ?k")
    case (Some a)
    note hit = get_model_hit[OF ex Some, of g]
    from run hit have r: "r = Inr \<lparr>gpu_load = g, key = ?k, cache_entry = a,
        size_needed = size_bytes (objs s a)\<rparr>"
      and cm: "cached_models s' = cached_models s"
      and st: "cache_stack s' = remove1 ?k (cache_stack s) @ [?k]"
      by simp_all
    have "?k \<in> set (map fst (cached_models s))"
      using Some by (metis map_of_eq_None_iff option.distinct(1) set_map)
    from cache_inv_touch[OF inv this] cm st have "cache_inv s'"
      by (simp add: cache_inv_def)
    with r cm st Some show ?thesis by simp
  next
    case None
    let ?s1 = "s\<lparr>stats := map_option (\<lambda>c. c\<lparr>misses := misses c + 1\<rparr>) (stats s)\<rparr>"
    have inv1: "cache_inv ?s1" using inv by (simp add: cache_inv_def)
    from make_cache_room_result[OF inv1, of rt "get_size rt p sub"] obtain s2 scanned rest where
      mk: "make_cache_room rt (get_size rt p sub) ?s1 = (Inr (), s2)" and
      inv2: "cache_inv s2" and
      sub: "set (cached_models s2) \<subseteq> set (cached_models s)" and
      sp: "cache_stack s = scanned @ rest" and
      st2: "cache_stack s2 = filter (\<lambda>k. \<not> clearable rt s k) scanned @ rest"
      by auto
    have none2: "map_of (cached_models s2) ?k = None"
      by (rule map_of_None_subset[OF None sub])
    then have nk: "?k \<notin> set (map fst (cached_models s2))" by (simp add: map_of_eq_None_iff)
    with inv2 have nst: "?k \<notin> set (cache_stack s2)" by (simp add: cache_inv_def)
    show ?thesis
    proof (cases "load_model rt p sub")
      case (Inl e)
      from get_model_load_fails[OF ex None Inl mk, of g] run have "r = Inl e" "s' = s2"
        by simp_all
      with inv2 show ?thesis by simp
    next
      case (Inr m)
      note ld = get_model_loads[OF ex None Inr mk none2, of g]
      from run ld have r: "r = Inr \<lparr>gpu_load = g, key = ?k, cache_entry = next_ref s2,
          size_needed = get_size rt p sub\<rparr>"
        and cm: "cached_models s' = cached_models s2 @ [(?k, next_ref s2)]"
        and st: "cache_stack s' = remove1 ?k (cache_stack s2) @ [?k]"
        by simp_all
      from st nst have st': "cache_stack s' = cache_stack s2 @ [?k]" by (simp add: remove1_idem)
      have "cache_inv s'"
        using inv2 nk nst cm st' by (auto simp: cache_inv_def simp del: set_map)
      moreover have "map_of (cached_models s') ?k = Some (next_ref s2)"
        using cm none2 by (simp add: map_add_def)
      ultimately show ?thesis using r st' st2 sp None by auto
    qed
  qed
qed

text \<open>
  C5. From a cache that satisfies the invariant of the registry (unique keys, no
  duplicates in the stack, the same keys in both):
  \<^item> every \<open>get_model\<close> leaves the invariant in place whether it returns or raises, and
    when it returns a locker, the requested key is the last key of the stack, the
    most recently used end. On a hit the stack is the old one with the key moved to
    the end; on a miss it is what the scan left of the old stack, followed by the key;
  \<^item> the scan of \<open>_make_cache_room\<close> starts at the least recently used end: the old stack
    splits into a scanned initial part, from which exactly the entries that pass the test
    of the scan are removed, and a rest that is kept as it is; the invariant holds
    afterwards;
  \<^item> \<open>uncache_model\<close>, \<open>__enter__\<close>, \<open>__exit__\<close> and \<open>_offload_unlocked_models\<close> leave the
    invariant in place.
\<close>

theorem lru_order_invariant:
  assumes "cache_inv s"
  shows "(\<forall>p sub g r s'. get_model rt p sub g s = (r, s') \<longrightarrow>
            cache_inv s' \<and>
            (\<forall>lk. r = Inr lk \<longrightarrow>
               key lk = get_key p sub \<and> cache_stack s' \<noteq> [] \<and>
               last (cache_stack s') = get_key p sub \<and>
               map_of (cached_models s') (get_key p sub) = Some (cache_entry lk) \<and>
               (map_of (cached_models s) (get_key p sub) \<noteq> None \<longrightarrow>
                  cache_stack s' = remove1 (get_key p sub) (cache_stack s) @ [get_key p sub]) \<and>
               (map_of (cached_models s) (get_key p sub) = None \<longrightarrow>
                  (\<exists>scanned rest. cache_stack s = scanned @ rest \<and>
                     cache_stack s' =
                       filter (\<lambda>k. \<not> clearable rt s k) scanned @ rest @ [get_key p sub])))) \<and>
         (\<forall>n r s'. make_cache_room rt n s = (r, s') \<longrightarrow>
            cache_inv s' \<and>
            (\<exists>scanned rest. cache_stack s = scanned @ rest \<and>
               cache_stack s' = filter (\<lambda>k. \<not> clearable rt s k) scanned @ rest)) \<and>
         (\<forall>k. cache_inv (uncache_model k s)) \<and>
         (\<forall>lk r s'. locker_enter rt lk s = (r, s') \<longrightarrow> cache_inv s') \<and>
         (\<forall>lk r s'. locker_exit rt lk s = (r, s') \<longrightarrow> cache_inv s') \<and>
         (\<forall>n r s'. offload_unlocked_models rt n s = (r, s') \<longrightarrow> cache_inv s')"
proof -
  have g: "\<forall>p sub g r s'. get_model rt p sub g s = (r, s') \<longrightarrow>
            cache_inv s' \<and>
            (\<forall>lk. r = Inr lk \<longrightarrow>
               key lk = get_key p sub \<and> cache_stack s' \<noteq> [] \<and>
               last (cache_stack s') = get_key p sub \<and>
               map_of (cached_models s') (get_key p sub) = Some (cache_entry lk) \<and>
               (map_of (cached_models s) (get_key p sub) \<noteq> None \<longrightarrow>
                  cache_stack s' = remove1 (get_key p sub) (cache_stack s) @ [get_key p sub]) \<and>
               (map_of (cached_models s) (get_key p sub) = None \<longrightarrow>
                  (\<exists>scanned rest. cache_stack s = scanned @ rest \<and>
                     cache_stack s' =
                       filter (\<lambda>k. \<not> clearable rt s k) scanned @ rest @ [get_key p sub])))"
    using get_model_lru[OF assms] by blast
  have m: "\<forall>n r s'. make_cache_room rt n s = (r, s') \<longrightarrow>
            cache_inv s' \<and>
            (\<exists>scanned rest. cache_stack s = scanned @ rest \<and>
               cache_stack s' = filter (\<lambda>k. \<not> clearable rt s k) scanned @ rest)"
  proof (intro allI impI)
    fix n r s' assume run: "make_cache_room rt n s = (r, s')"
    from make_cache_room_result[OF assms, of rt n] run
    show "cache_inv s' \<and>
            (\<exists>scanned rest. cache_stack s = scanned @ rest \<and>
               cache_stack s' = filter (\<lambda>k. \<not> clearable rt s k) scanned @ rest)"
      by auto
  qed
  have u: "\<forall>k. cache_inv (uncache_model k s)"
    using cache_inv_uncache[OF assms] by blast
  have e: "\<forall>lk r s'. locker_enter rt lk s = (r, s') \<longrightarrow> cache_inv s'"
    using cache_inv_same_registry[OF locker_enter_frame assms] by blast
  have x: "\<forall>lk r s'. locker_exit rt lk s = (r, s') \<longrightarrow> cache_inv s'"
    using cache_inv_same_registry[OF locker_exit_frame assms] by blast
  have o: "\<forall>n r s'. offload_unlocked_models rt n s = (r, s') \<longrightarrow> cache_inv s'"
    using cache_inv_same_registry[OF offload_frame(1) assms] by blast
  show ?thesis
    by (rule conjI[OF g conjI[OF m conjI[OF u conjI[OF e conjI[OF x o]]]]])
qed

theorem lru_order_invariant_witness:
  "cache_inv ex_gh \<and>
   cache_stack ex_gh = [''/m/g'', ''/m/h''] \<and>
   fst (get_model ex_rt ''/m/g'' None True ex_gh) = Inr (ex_lk ''/m/g'' 0 True) \<and>
   cache_inv (snd (get_model ex_rt ''/m/g'' None True ex_gh)) \<and>
   cache_stack (snd (get_model ex_rt ''/m/g'' None True ex_gh)) = [''/m/h'', ''/m/g''] \<and>
   cache_inv (uncache_model ''/m/g'' ex_gh) \<and>
   cache_inv (snd (make_cache_room ex_rt (16 * GIG) ex_gh))"
proof -
  let ?out = "get_model ex_rt ''/m/g'' None True ex_gh"
  have inv: "cache_inv ex_gh" by (simp add: cache_inv_def ex_defs)
  have st: "cache_stack ex_gh = [''/m/g'', ''/m/h'']" by (simp add: ex_defs)
  have hit: "map_of (cached_models ex_gh) (get_key ''/m/g'' None) \<noteq> None" by (simp add: ex_defs)
  have k: "get_key ''/m/g'' None = ''/m/g''" by (simp add: get_key_def)
  have r: "fst ?out = Inr (ex_lk ''/m/g'' 0 True)" by (simp add: ex_defs)
  then have run: "?out = (Inr (ex_lk ''/m/g'' 0 True), snd ?out)" by (metis prod.collapse)
  have mk: "make_cache_room ex_rt (16 * GIG) ex_gh
      = (fst (make_cache_room ex_rt (16 * GIG) ex_gh), snd (make_cache_room ex_rt (16 * GIG) ex_gh))"
    by simp
  note inst = lru_order_invariant[OF inv, of ex_rt]
  from inst run have "cache_inv (snd ?out)" by blast
  moreover from inst run hit
  have "cache_stack (snd ?out)
      = remove1 (get_key ''/m/g'' None) (cache_stack ex_gh) @ [get_key ''/m/g'' None]"
    by blast
  then have "cache_stack (snd ?out) = [''/m/h'', ''/m/g'']" using st k by simp
  moreover from inst have "cache_inv (uncache_model ''/m/g'' ex_gh)" by blast
  moreover from inst mk have "cache_inv (snd (make_cache_room ex_rt (16 * GIG) ex_gh))" by blast
  ultimately show ?thesis using inv st r by simp
qed

subsection \<open>Every key has a record of its own\<close>

text \<open>
  The hypothesis of the theorem on the offloading holds in every cache that the
  operations build from the constructor: it holds initially and is preserved.
\<close>

lemma refs_inv_dict_del:
  "refs_inv s \<Longrightarrow>
   refs_inv (s\<lparr>stats := st, cache_stack := xs, cached_models := dict_del k (cached_models s)\<rparr>)"
  by (simp add: refs_inv_def dict_del_def distinct_map_filter list_all_iff)

lemma make_room_loop_refs:
  "refs_inv s \<Longrightarrow> make_room_loop rt bytes_needed maximum_size current_size pos s = (r, s') \<Longrightarrow>
   refs_inv s'"
proof (induction rt bytes_needed maximum_size current_size pos s rule: make_room_loop.induct)
  case (1 rt bytes_needed maximum_size current_size pos s)
  show ?case
  proof (cases "of_int (current_size + bytes_needed) > maximum_size \<and> pos < length (cache_stack s)")
    case False
    with "1.prems" show ?thesis by (simp add: make_room_loop_stop)
  next
    case True
    show ?thesis
    proof (cases "map_of (cached_models s) (cache_stack s ! pos)")
      case None
      with True "1.prems" show ?thesis by (simp add: make_room_loop_missing)
    next
      case (Some a)
      show ?thesis
      proof (cases "clear_test (cache_stack s ! pos) (objs s a) (getrefcount rt a)")
        case t: True
        let ?s = "s\<lparr>stats := stats_cleared (stats s),
                    cache_stack := del_at pos (cache_stack s),
                    cached_models := dict_del (cache_stack s ! pos) (cached_models s)\<rparr>"
        from "1.prems"(2) make_room_loop_clear[OF True Some t]
        have run: "make_room_loop rt bytes_needed maximum_size
                     (current_size - size_bytes (objs s a)) pos ?s = (r, s')"
          by simp
        have "refs_inv ?s" by (rule refs_inv_dict_del[OF "1.prems"(1)])
        from "1.IH"(1)[OF True refl Some t this run] show ?thesis .
      next
        case f: False
        from "1.prems"(2) make_room_loop_skip[OF True Some f]
        have "make_room_loop rt bytes_needed maximum_size current_size (pos + 1) s = (r, s')"
          by simp
        from "1.IH"(2)[OF True refl Some f "1.prems"(1) this] show ?thesis .
      qed
    qed
  qed
qed

lemma refs_inv_same_registry: "same_registry s s' \<Longrightarrow> refs_inv s \<Longrightarrow> refs_inv s'"
  by (simp add: same_registry_def refs_inv_def)

lemma refs_inv_init: "refs_inv (ModelCache_init a b c d e)"
  by (simp add: refs_inv_def ModelCache_init_def)

lemma refs_inv_uncache: "refs_inv s \<Longrightarrow> refs_inv (uncache_model k s)"
  by (simp add: refs_inv_def uncache_model_def dict_del_def distinct_map_filter list_all_iff)

lemma refs_inv_get_model:
  assumes inv: "cache_inv s" and refs: "refs_inv s" and run: "get_model rt p sub g s = (r, s')"
  shows "refs_inv s'"
proof (cases "path_exists rt p")
  case False
  with run refs show ?thesis by (simp add: get_model_def)
next
  case ex: True
  let ?k = "get_key p sub"
  show ?thesis
  proof (cases "map_of (cached_models s) ?k")
    case (Some a)
    from run get_model_hit(2)[OF ex Some, of g] have cm: "cached_models s' = cached_models s"
      by simp
    from run ex Some have "next_ref s' = next_ref s"
      by (auto simp: get_model_def Let_def stats_access_def)
    with cm refs show ?thesis by (simp add: refs_inv_def)
  next
    case None
    let ?s1 = "s\<lparr>stats := map_option (\<lambda>c. c\<lparr>misses := misses c + 1\<rparr>) (stats s)\<rparr>"
    have inv1: "cache_inv ?s1" using inv by (simp add: cache_inv_def)
    have refs1: "refs_inv ?s1" using refs by (simp add: refs_inv_def)
    from make_cache_room_result[OF inv1, of rt "get_size rt p sub"] obtain s2 where
      mk: "make_cache_room rt (get_size rt p sub) ?s1 = (Inr (), s2)" and
      sub: "set (cached_models s2) \<subseteq> set (cached_models s)"
      by auto
    have refs2: "refs_inv s2"
      using make_room_loop_refs[OF refs1] mk by (simp add: make_cache_room_def Let_def)
    have none2: "map_of (cached_models s2) ?k = None"
      by (rule map_of_None_subset[OF None sub])
    show ?thesis
    proof (cases "load_model rt p sub")
      case (Inl e)
      from get_model_load_fails[OF ex None Inl mk, of g] run have "s' = s2" by simp
      with refs2 show ?thesis by simp
    next
      case (Inr m)
      from run get_model_loads(2)[OF ex None Inr mk none2, of g]
      have cm: "cached_models s' = cached_models s2 @ [(?k, next_ref s2)]" by simp
      from run ex None Inr mk none2 have nr: "next_ref s' = Suc (next_ref s2)"
        by (auto simp: get_model_def Let_def stats_access_def map_add_def)
      from refs2 have "next_ref s2 \<notin> set (map snd (cached_models s2))"
        by (auto simp: refs_inv_def list_all_iff)
      with refs2 cm nr show ?thesis
        by (auto simp: refs_inv_def list_all_iff)
    qed
  qed
qed

lemma refs_inv_locker_enter: "locker_enter rt lk s = (r, s') \<Longrightarrow> refs_inv s \<Longrightarrow> refs_inv s'"
  by (rule refs_inv_same_registry[OF locker_enter_frame])

lemma refs_inv_locker_exit: "locker_exit rt lk s = (r, s') \<Longrightarrow> refs_inv s \<Longrightarrow> refs_inv s'"
  by (rule refs_inv_same_registry[OF locker_exit_frame])

lemma refs_inv_distinct: "refs_inv s \<Longrightarrow> distinct (map snd (cached_models s))"
  by (simp add: refs_inv_def)

end
